theory Spec2Isabelle
  imports Main "HOL-Library.Multiset" "HOL-Library.Product_Lexorder"
begin

section \<open>The knowledge representation of \<^verbatim>\<open>minesweeper.py\<close>\<close>

text \<open>
  A cell is a pair \<open>(i, j)\<close> of Python integers: \<open>i\<close> is compared with the height and
  \<open>j\<close> with the width wherever the source checks bounds (\<^verbatim>\<open>nearby_mines\<close>,
  \<^verbatim>\<open>add_knowledge\<close>).
\<close>

type_synonym cell = "int \<times> int"

subsection \<open>class Sentence\<close>

record sentence =
  cells :: "cell set"
  count :: int

text \<open>\<^verbatim>\<open>Sentence.__init__\<close>: \<^verbatim>\<open>self.cells = set(cells)\<close>, \<^verbatim>\<open>self.count = count\<close>.\<close>

definition Sentence :: "cell set \<Rightarrow> int \<Rightarrow> sentence" where
  "Sentence cs n = \<lparr>cells = cs, count = n\<rparr>"

text \<open>\<^verbatim>\<open>Sentence.__eq__\<close>.\<close>

definition sentence_eq :: "sentence \<Rightarrow> sentence \<Rightarrow> bool" where
  "sentence_eq a b \<longleftrightarrow> cells a = cells b \<and> count a = count b"

text \<open>\<^verbatim>\<open>len(self.cells) == self.count\<close> compares a length with the stored integer.\<close>

definition known_mines :: "sentence \<Rightarrow> cell set" where
  "known_mines s = (if int (card (cells s)) = count s then cells s else {})"

text \<open>\<^verbatim>\<open>not self.count\<close> holds exactly when the count is zero.\<close>

definition known_safes :: "sentence \<Rightarrow> cell set" where
  "known_safes s = (if count s = 0 then cells s else {})"

definition Sentence_mark_mine :: "cell \<Rightarrow> sentence \<Rightarrow> sentence" where
  "Sentence_mark_mine c s =
     (if c \<in> cells s then s\<lparr>cells := cells s - {c}, count := count s - 1\<rparr> else s)"

definition Sentence_mark_safe :: "cell \<Rightarrow> sentence \<Rightarrow> sentence" where
  "Sentence_mark_safe c s =
     (if c \<in> cells s then s\<lparr>cells := cells s - {c}\<rparr> else s)"

subsection \<open>class MinesweeperAI\<close>

record ai =
  height :: int
  width :: int
  moves_made :: "cell set"
  mines :: "cell set"
  safes :: "cell set"
  knowledge :: "sentence list"

definition MinesweeperAI :: "int \<Rightarrow> int \<Rightarrow> ai" where
  "MinesweeperAI h w =
     \<lparr>height = h, width = w, moves_made = {}, mines = {}, safes = {}, knowledge = []\<rparr>"

text \<open>
  The sentences in \<^verbatim>\<open>self.knowledge\<close> are objects mutated in place; the list keeps its
  length and order, so the loop over it is a \<open>map\<close>.
\<close>

definition mark_mine :: "cell \<Rightarrow> ai \<Rightarrow> ai" where
  "mark_mine c st =
     st\<lparr>mines := insert c (mines st), knowledge := map (Sentence_mark_mine c) (knowledge st)\<rparr>"

definition mark_safe :: "cell \<Rightarrow> ai \<Rightarrow> ai" where
  "mark_safe c st =
     st\<lparr>safes := insert c (safes st), knowledge := map (Sentence_mark_safe c) (knowledge st)\<rparr>"

text \<open>
  A \<^verbatim>\<open>for\<close> loop over a Python set visits every member once, in an order the language
  leaves open. Where the loop body only marks cells the order is fixed here as the
  ascending one; \<open>fold_mark_safe_any_order\<close> and \<open>fold_mark_mine_any_order\<close> below show
  that every other order ends in the same state.
\<close>

definition iter :: "cell set \<Rightarrow> cell list" where
  "iter S = sorted_list_of_set S"

text \<open>Lines 206--212: the in-bounds neighbours of a cell, the cell itself left out.\<close>

definition neighbors :: "ai \<Rightarrow> cell \<Rightarrow> cell list" where
  "neighbors st c =
     concat (map (\<lambda>i. concat (map (\<lambda>j.
        if (i \<noteq> fst c \<or> j \<noteq> snd c) \<and> 0 \<le> i \<and> i < height st \<and> 0 \<le> j \<and> j < width st
        then [(i, j)] else [])
       [snd c - 1 ..  snd c + 1]))
       [fst c - 1 .. fst c + 1])"

text \<open>
  Lines 201--227 of \<^verbatim>\<open>add_knowledge\<close>, before the inference loop. The object appended at
  line 219 is the one pruned at lines 222--227, so the list ends with the pruned
  sentence. The \<^verbatim>\<open>print\<close> of lines 214--215 changes no state.
\<close>

definition add_sentence :: "cell \<Rightarrow> int \<Rightarrow> ai \<Rightarrow> ai" where
  "add_sentence c n st =
     (let st1 = mark_safe c (st\<lparr>moves_made := insert c (moves_made st)\<rparr>);
          new_sentence = Sentence (set (neighbors st1 c)) n;
          new_sentence1 = fold Sentence_mark_safe (iter (safes st1)) new_sentence;
          new_sentence2 = fold Sentence_mark_mine (iter (mines st1)) new_sentence1
      in st1\<lparr>knowledge := knowledge st1 @ [new_sentence2]\<rparr>)"

datatype error = ValueError

text \<open>
  \<^verbatim>\<open>list.remove(x)\<close> deletes the first item equal to \<open>x\<close> (by \<^verbatim>\<open>__eq__\<close>) and raises
  \<^verbatim>\<open>ValueError\<close> when there is none.
\<close>

fun list_remove :: "sentence \<Rightarrow> sentence list \<Rightarrow> error + sentence list" where
  "list_remove x [] = Inl ValueError"
| "list_remove x (y # ys) =
     (if sentence_eq y x then Inr ys
      else (case list_remove x ys of Inl e \<Rightarrow> Inl e | Inr zs \<Rightarrow> Inr (y # zs)))"

text \<open>
  Lines 240--256, one iteration, for the sentence at index \<open>i\<close>. The known cells are
  copied into tuples before any marking; the test of line 254 reads the sentence after
  the marking. The queue of resolved sentences holds objects, kept here as indices.
\<close>

definition resolve_step :: "nat \<Rightarrow> ai \<times> nat list \<Rightarrow> ai \<times> nat list" where
  "resolve_step i = (\<lambda>(st, resolved).
     let sentence = knowledge st ! i;
         safes_t = known_safes sentence;
         mines_t = known_mines sentence;
         st1 = fold mark_safe (iter safes_t) st;
         st2 = fold mark_mine (iter mines_t) st1
     in (st2, if safes_t \<noteq> {} \<or> mines_t \<noteq> {} \<or> cells (knowledge st2 ! i) = {}
              then resolved @ [i] else resolved))"

definition resolve_loop :: "ai \<Rightarrow> ai \<times> nat list" where
  "resolve_loop st = fold resolve_step [0 ..< length (knowledge st)] (st, [])"

text \<open>Lines 259--260: a \<^verbatim>\<open>ValueError\<close> of \<^verbatim>\<open>remove\<close> is not caught here.\<close>

fun remove_resolved :: "sentence list \<Rightarrow> sentence list \<Rightarrow> error + sentence list" where
  "remove_resolved [] K = Inr K"
| "remove_resolved (s # ss) K =
     (case list_remove s K of Inl e \<Rightarrow> Inl e | Inr K' \<Rightarrow> remove_resolved ss K')"

text \<open>Lines 266--283: the pairs \<open>(sentence, sentence2)\<close> that pass both tests, in loop order.\<close>

definition subset_pairs :: "sentence list \<Rightarrow> (sentence \<times> sentence) list" where
  "subset_pairs K =
     concat (map (\<lambda>s. concat (map (\<lambda>s2.
        if cells s = cells s2 then []
        else if cells s \<subseteq> cells s2 then [(s, s2)] else []) K)) K)"

definition derived :: "sentence \<times> sentence \<Rightarrow> sentence" where
  "derived p = Sentence (cells (snd p) - cells (fst p)) (count (snd p) - count (fst p))"

text \<open>Lines 288--293: here the \<^verbatim>\<open>ValueError\<close> is caught and ignored.\<close>

definition remove_ignoring :: "sentence \<Rightarrow> sentence list \<Rightarrow> sentence list" where
  "remove_ignoring s K = (case list_remove s K of Inl e \<Rightarrow> K | Inr K' \<Rightarrow> K')"

definition subset_pass :: "sentence list \<Rightarrow> sentence list" where
  "subset_pass K =
     (let pairs = subset_pairs K;
          new_sentences = map derived pairs;
          resolved_sentences = map snd pairs
      in fold remove_ignoring resolved_sentences (K @ new_sentences))"

text \<open>
  One run of the body of \<^verbatim>\<open>while not done\<close> (lines 234--293): the new state and the
  value of \<^verbatim>\<open>done\<close> at the end of the body.
\<close>

definition pass :: "ai \<Rightarrow> error + (ai \<times> bool)" where
  "pass st =
     (let (st1, resolved) = resolve_loop st
      in case remove_resolved (map (\<lambda>i. knowledge st1 ! i) resolved) (knowledge st1) of
           Inl e \<Rightarrow> Inl e
         | Inr K1 \<Rightarrow>
             Inr (st1\<lparr>knowledge := subset_pass K1\<rparr>, resolved = [] \<and> subset_pairs K1 = []))"

text \<open>
  The loop itself may fail to return; \<open>None\<close> is that outcome, \<open>Some (Inl e)\<close> an
  exception that leaves the method, \<open>Some (Inr st)\<close> a normal return.
\<close>

partial_function (option) inference_loop :: "ai \<Rightarrow> (error + ai) option" where
  "inference_loop st =
     (case pass st of
        Inl e \<Rightarrow> Some (Inl e)
      | Inr r \<Rightarrow> if snd r then Some (Inr (fst r)) else inference_loop (fst r))"

declare inference_loop.simps [code]

definition add_knowledge :: "cell \<Rightarrow> int \<Rightarrow> ai \<Rightarrow> (error + ai) option" where
  "add_knowledge c n st = inference_loop (add_sentence c n st)"

text \<open>
  \<^verbatim>\<open>make_safe_move\<close> (lines 305--311). \<^verbatim>\<open>list(...)\<close> of a set yields its members in an
  order the language leaves open, and the result depends on it, so the conversion is the
  parameter \<open>to_list\<close>. The method returns a value and assigns to nothing; the state is
  returned beside the value to state that.
\<close>

definition make_safe_move :: "(cell set \<Rightarrow> cell list) \<Rightarrow> ai \<Rightarrow> cell option \<times> ai" where
  "make_safe_move to_list st =
     (let moves = to_list (safes st - moves_made st)
      in if length moves = 0 then (None, st) else (Some (moves ! 0), st))"

text \<open>
  \<^verbatim>\<open>make_random_move\<close> (lines 321--335). The outer loop variable \<open>i\<close> runs over
  \<^verbatim>\<open>range(self.width)\<close> and the inner \<open>j\<close> over \<^verbatim>\<open>range(self.height)\<close>.
  \<^verbatim>\<open>random.choice(seq)\<close> is \<^verbatim>\<open>seq[randbelow(len(seq))]\<close>; the generator is the
  parameter \<open>randbelow\<close>.
\<close>

definition all_moves :: "ai \<Rightarrow> cell set" where
  "all_moves st = set (concat (map (\<lambda>i. map (\<lambda>j. (i, j)) [0 .. height st - 1]) [0 .. width st - 1]))"

definition make_random_move :: "(cell set \<Rightarrow> cell list) \<Rightarrow> (nat \<Rightarrow> nat) \<Rightarrow> ai \<Rightarrow> cell option" where
  "make_random_move to_list randbelow st =
     (let moves = all_moves st - (moves_made st \<union> mines st)
      in if moves \<noteq> {}
         then (let seq = to_list moves in Some (seq ! randbelow (length seq)))
         else None)"

text \<open>The bounds test of lines 74 and 211, for a cell \<open>(i, j)\<close>.\<close>

definition in_bounds :: "ai \<Rightarrow> cell \<Rightarrow> bool" where
  "in_bounds st c \<longleftrightarrow> 0 \<le> fst c \<and> fst c < height st \<and> 0 \<le> snd c \<and> snd c < width st"

subsection \<open>class Minesweeper\<close>

text \<open>
  The board is a list of rows of booleans, read only at positions inside the grid; it is
  kept as the function from those positions to their entry. \<^verbatim>\<open>nearby_mines\<close> tests the
  bounds before it reads the board, and \<open>is_mine\<close> is applied below only to cells that
  have passed the same test; at a position outside the grid the indexing of the source
  wraps around or raises, which \<open>is_mine\<close> does not describe.
\<close>

record minesweeper =
  g_height :: int
  g_width :: int
  board :: "cell \<Rightarrow> bool"

definition is_mine :: "minesweeper \<Rightarrow> cell \<Rightarrow> bool" where
  "is_mine g c = board g c"

definition nearby_mines :: "minesweeper \<Rightarrow> cell \<Rightarrow> int" where
  "nearby_mines g c =
     (\<Sum>i\<leftarrow>[fst c - 1 .. fst c + 1]. \<Sum>j\<leftarrow>[snd c - 1 .. snd c + 1].
        if (i, j) = c then 0
        else if 0 \<le> i \<and> i < g_height g \<and> 0 \<le> j \<and> j < g_width g
             then (if board g (i, j) then 1 else 0) else 0)"

subsection \<open>Sequences of calls\<close>

datatype call = Mark_mine cell | Mark_safe cell | Add_knowledge cell int

fun exec_call :: "call \<Rightarrow> ai \<Rightarrow> (error + ai) option" where
  "exec_call (Mark_mine c) st = Some (Inr (mark_mine c st))"
| "exec_call (Mark_safe c) st = Some (Inr (mark_safe c st))"
| "exec_call (Add_knowledge c n) st = add_knowledge c n st"

fun exec_calls :: "call list \<Rightarrow> ai \<Rightarrow> (error + ai) option" where
  "exec_calls [] st = Some (Inr st)"
| "exec_calls (x # xs) st =
     (case exec_call x st of
        None \<Rightarrow> None
      | Some (Inl e) \<Rightarrow> Some (Inl e)
      | Some (Inr st') \<Rightarrow> exec_calls xs st')"

text \<open>The hints of a game: each revealed cell with the count the board reports for it.\<close>

definition hint :: "minesweeper \<Rightarrow> cell \<Rightarrow> call" where
  "hint g c = Add_knowledge c (nearby_mines g c)"

definition valid_reveal :: "minesweeper \<Rightarrow> cell \<Rightarrow> bool" where
  "valid_reveal g c \<longleftrightarrow>
     0 \<le> fst c \<and> fst c < g_height g \<and> 0 \<le> snd c \<and> snd c < g_width g \<and> \<not> is_mine g c"

subsection \<open>Notions used in the statements and proofs\<close>

text \<open>
  The combined effect on one sentence of marking the cells \<open>S\<close> safe and then the cells
  \<open>M\<close> mines, and on the player of doing so through \<^verbatim>\<open>mark_safe\<close> and
  \<^verbatim>\<open>mark_mine\<close>.
\<close>

definition prune :: "cell set \<Rightarrow> cell set \<Rightarrow> sentence \<Rightarrow> sentence" where
  "prune S M s =
     \<lparr>cells = cells s - S - M, count = count s - int (card ((cells s - S) \<inter> M))\<rparr>"

definition marks :: "cell set \<Rightarrow> cell set \<Rightarrow> ai \<Rightarrow> ai" where
  "marks S M st =
     st\<lparr>mines := mines st \<union> M, safes := safes st \<union> S,
        knowledge := map (prune S M) (knowledge st)\<rparr>"

text \<open>Every cell set in the list is finite, as every Python set is.\<close>

definition finite_cells :: "sentence list \<Rightarrow> bool" where
  "finite_cells K \<longleftrightarrow> (\<forall>s\<in>set K. finite (cells s))"

text \<open>The cells some held sentence still speaks about.\<close>

definition unknown :: "sentence list \<Rightarrow> cell set" where
  "unknown K = (\<Union>s\<in>set K. cells s)"

text \<open>What a pass can leave in the list: a sentence held before, or one the subset rule derives.\<close>

definition held_or_derived :: "sentence list \<Rightarrow> sentence \<Rightarrow> bool" where
  "held_or_derived K s \<longleftrightarrow>
     s \<in> set K \<or> (\<exists>a\<in>set K. \<exists>b\<in>set K. cells a \<subset> cells b \<and> s = derived (a, b))"

text \<open>
  The measure of the inference loop: the number of cells still spoken about, then the
  multiset of the sizes of the held sentences in the multiset order.
\<close>

definition sizes :: "sentence list \<Rightarrow> nat multiset" where
  "sizes K = mset (map (\<lambda>s. card (cells s)) K)"

definition pass_order :: "(ai \<times> ai) set" where
  "pass_order =
     inv_image (less_than <*lex*> mult less_than)
       (\<lambda>st. (card (unknown (knowledge st)), sizes (knowledge st)))"

text \<open>No held sentence mentions a cell that is marked as a mine or as safe.\<close>

definition pruned :: "ai \<Rightarrow> bool" where
  "pruned st \<longleftrightarrow> (\<forall>s\<in>set (knowledge st). cells s \<inter> (mines st \<union> safes st) = {})"

definition tidy :: "ai \<Rightarrow> bool" where
  "tidy st \<longleftrightarrow>
     finite (safes st) \<and> finite (mines st) \<and> finite_cells (knowledge st) \<and> pruned st"

text \<open>
  What the inference loop leaves: no sentence is empty or yields known cells, and no
  sentence's cell set lies strictly inside another's.
\<close>

definition settled :: "sentence list \<Rightarrow> bool" where
  "settled K \<longleftrightarrow>
     (\<forall>a\<in>set K. cells a \<noteq> {} \<and> known_safes a = {} \<and> known_mines a = {} \<and>
        (\<forall>b\<in>set K. cells a \<subseteq> cells b \<longrightarrow> cells a = cells b))"

text \<open>The resolution step of a pass finds nothing to do in such a list.\<close>

definition quiet :: "sentence list \<Rightarrow> bool" where
  "quiet K \<longleftrightarrow> (\<forall>s\<in>set K. cells s \<noteq> {} \<and> known_safes s = {} \<and> known_mines s = {})"

text \<open>
  The mines of a game, and what it means for the player to agree with a game: a held
  sentence is sound when its count is the number of mines among its cells.
\<close>

definition mine_cells :: "minesweeper \<Rightarrow> cell set" where
  "mine_cells g =
     {c. 0 \<le> fst c \<and> fst c < g_height g \<and> 0 \<le> snd c \<and> snd c < g_width g \<and> board g c}"

definition sound :: "cell set \<Rightarrow> sentence \<Rightarrow> bool" where
  "sound m s \<longleftrightarrow> finite (cells s) \<and> count s = int (card (cells s \<inter> m))"

definition consistent :: "minesweeper \<Rightarrow> ai \<Rightarrow> bool" where
  "consistent g st \<longleftrightarrow>
     height st = g_height g \<and> width st = g_width g \<and>
     finite (safes st) \<and> finite (mines st) \<and>
     mines st \<subseteq> mine_cells g \<and> safes st \<inter> mine_cells g = {} \<and>
     (\<forall>s\<in>set (knowledge st). sound (mine_cells g) s)"

subsection \<open>Concrete states used as test inputs\<close>

text \<open>A fresh 2 x 2 player on which the same cell is marked as a mine and then as safe.\<close>

definition marked_twice :: ai where
  "marked_twice = mark_safe (0, 0) (mark_mine (0, 0) (MinesweeperAI 2 2))"

text \<open>
  The player of a board with one row and two columns after
  \<^verbatim>\<open>add_knowledge((0, 0), 1)\<close>.
\<close>

definition wide_board :: ai where
  "wide_board =
     \<lparr>height = 1, width = 2, moves_made = {(0, 0)}, mines = {(0, 1)}, safes = {(0, 0)},
      knowledge = []\<rparr>"

text \<open>A board of two rows and three columns with its one mine at \<open>(0, 0)\<close>.\<close>

definition two_by_three :: minesweeper where
  "two_by_three = \<lparr>g_height = 2, g_width = 3, board = (\<lambda>c. c = (0, 0))\<rparr>"

definition twin :: sentence where
  "twin = \<lparr>cells = {(0, 0), (0, 2), (1, 0), (1, 2)}, count = 1\<rparr>"

text \<open>
  A board of three rows and three columns with mines at \<open>(1, 2)\<close>, \<open>(2, 1)\<close> and
  \<open>(2, 2)\<close>; the player after the hints for \<open>(0, 1)\<close>, \<open>(1, 0)\<close> and \<open>(0, 2)\<close>;
  the state in which the inference loop of the hint for \<open>(1, 1)\<close> starts, with its three
  sentences; and the state after the first pass of that loop.
\<close>

definition three_by_three :: minesweeper where
  "three_by_three =
     \<lparr>g_height = 3, g_width = 3, board = (\<lambda>c. c = (1, 2) \<or> c = (2, 1) \<or> c = (2, 2))\<rparr>"

definition before_hint :: ai where
  "before_hint =
     \<lparr>height = 3, width = 3, moves_made = {(0, 2), (1, 0), (0, 1)}, mines = {},
      safes = {(0, 0), (0, 2), (1, 0), (0, 1)},
      knowledge =
        [\<lparr>cells = {(1, 1), (2, 0), (2, 1)}, count = 1\<rparr>,
         \<lparr>cells = {(1, 1), (1, 2)}, count = 1\<rparr>]\<rparr>"

definition other_sentence :: sentence where
  "other_sentence = \<lparr>cells = {(2, 0), (2, 1)}, count = 1\<rparr>"

definition sentence_a :: sentence where
  "sentence_a = \<lparr>cells = {(1, 2)}, count = 1\<rparr>"

definition sentence_b :: sentence where
  "sentence_b = \<lparr>cells = {(1, 2), (2, 0), (2, 1), (2, 2)}, count = 3\<rparr>"


definition before_pass :: ai where
  "before_pass =
     \<lparr>height = 3, width = 3, moves_made = {(1, 1), (0, 2), (1, 0), (0, 1)}, mines = {},
      safes = {(1, 1), (0, 0), (0, 2), (1, 0), (0, 1)},
      knowledge = [other_sentence, sentence_a, sentence_b]\<rparr>"

definition after_pass :: ai where
  "after_pass =
     \<lparr>height = 3, width = 3, moves_made = {(1, 1), (0, 2), (1, 0), (0, 1)}, mines = {(1, 2)},
      safes = {(1, 1), (0, 0), (0, 2), (1, 0), (0, 1)},
      knowledge =
        [\<lparr>cells = {(2, 0), (2, 1)}, count = 1\<rparr>,
         \<lparr>cells = {(2, 2)}, count = 1\<rparr>]\<rparr>"

definition small_sentence :: sentence where
  "small_sentence = \<lparr>cells = {(0, 0), (0, 1)}, count = 1\<rparr>"

definition large_sentence :: sentence where
  "large_sentence = \<lparr>cells = {(0, 0), (0, 1), (1, 0), (1, 1)}, count = 2\<rparr>"


section \<open>Sentences\<close>

lemma sentence_eq_iff: "sentence_eq a b \<longleftrightarrow> a = b"
  by (auto simp: sentence_eq_def)

text \<open>
  C7, as the code has it: \<^verbatim>\<open>__eq__\<close> compares the cell sets and the counts, so two
  sentences are equal exactly when both agree.
\<close>

theorem sentence_eq_cells_and_count:
  "sentence_eq (Sentence cs n) (Sentence cs' n') \<longleftrightarrow> cs = cs' \<and> n = n'"
  by (simp add: sentence_eq_def Sentence_def)

text \<open>
  C7 as stated fails: two sentences over the same cell set with counts 0 and 1 are not
  equal.
\<close>

theorem sentence_eq_not_cells_only:
  "cells (Sentence {(0, 0)} 0) = cells (Sentence {(0, 0)} 1) \<and>
   \<not> sentence_eq (Sentence {(0, 0)} 0) (Sentence {(0, 0)} 1)"
  by (simp add: sentence_eq_def Sentence_def)

text \<open>
  C9: a sentence with count 0 knows all its cells safe and no mine; a sentence with a
  non-empty cell set whose count is the number of its cells knows all its cells to be
  mines and none safe. Python sets are finite.
\<close>

theorem known_cells_of_resolved_sentence:
  assumes "finite (cells s)"
  shows "(count s = 0 \<longrightarrow> known_safes s = cells s \<and> known_mines s = {}) \<and>
         (cells s \<noteq> {} \<and> count s = int (card (cells s)) \<longrightarrow>
            known_mines s = cells s \<and> known_safes s = {})"
  using assms by (auto simp: known_safes_def known_mines_def)

theorem known_cells_of_resolved_sentence_witness:
  "finite (cells (Sentence {(0, 1), (1, 1)} 2)) \<and>
   known_mines (Sentence {(0, 1), (1, 1)} 2) = {(0, 1), (1, 1)} \<and>
   known_safes (Sentence {(0, 1), (1, 1)} 2) = {} \<and>
   known_safes (Sentence {(0, 1), (1, 1)} 0) = {(0, 1), (1, 1)} \<and>
   known_mines (Sentence {(0, 1), (1, 1)} 0) = {}"
  using known_cells_of_resolved_sentence [of "Sentence {(0, 1), (1, 1)} 2"]
        known_cells_of_resolved_sentence [of "Sentence {(0, 1), (1, 1)} 0"]
  by (simp add: Sentence_def)

section \<open>Choosing a move\<close>



text \<open>
  The method itself never reads the mines: on a state marked by hand with
  \<^verbatim>\<open>mark_mine((0, 0))\<close> and then \<^verbatim>\<open>mark_safe((0, 0))\<close>, where the two sets overlap, the
  cell returned is in both.
\<close>

lemma make_safe_move_reads_no_mines:
  "fst (make_safe_move iter marked_twice) = Some (0, 0) \<and> (0, 0) \<in> mines marked_twice"
  by (simp add: make_safe_move_def marked_twice_def mark_safe_def mark_mine_def
      MinesweeperAI_def iter_def)

text \<open>
  C6 at a board with one row and two columns: the cell \<open>(0, 0)\<close> is played and
  \<open>(0, 1)\<close> is a known mine, so no cell of the grid is left, yet
  \<^verbatim>\<open>make_random_move\<close> returns \<open>(1, 0)\<close>, which lies outside the grid.
\<close>

theorem make_random_move_out_of_bounds:
  "add_knowledge (0, 0) 1 (MinesweeperAI 1 2) = Some (Inr wide_board) \<and>
   {c. in_bounds wide_board c} - moves_made wide_board - mines wide_board = {} \<and>
   make_random_move iter (\<lambda>n. 0) wide_board = Some (1, 0) \<and>
   \<not> in_bounds wide_board (1, 0)"
proof -
  have "add_knowledge (0, 0) 1 (MinesweeperAI 1 2) = Some (Inr wide_board)"
    by code_simp
  moreover have "{c. in_bounds wide_board c} - moves_made wide_board - mines wide_board = {}"
    by (auto simp: in_bounds_def wide_board_def)
  moreover have "make_random_move iter (\<lambda>n. 0) wide_board = Some (1, 0)"
    by (simp add: make_random_move_def all_moves_def wide_board_def iter_def upto.simps)
  moreover have "\<not> in_bounds wide_board (1, 0)"
    by (simp add: in_bounds_def wide_board_def)
  ultimately show ?thesis by simp
qed

section \<open>The inference loop\<close>

subsection \<open>Marking cells\<close>




lemma set_iter: "finite S \<Longrightarrow> set (iter S) = S"
  by (simp add: iter_def)

lemma distinct_iter: "distinct (iter S)"
  by (simp add: iter_def)

lemma list_remove_eq:
  "list_remove x K = (if x \<in> set K then Inr (remove1 x K) else Inl ValueError)"
  by (induction K) (auto simp: sentence_eq_def)

lemma remove_ignoring_eq: "remove_ignoring s K = remove1 s K"
  by (simp add: remove_ignoring_def list_remove_eq remove1_idem)

lemma prune_empty [simp]: "prune {} {} s = s"
  by (cases s) (simp add: prune_def)

lemma prune_empty_id [simp]: "prune {} {} = id"
  by (rule ext) simp

lemma marks_empty [simp]: "marks {} {} st = st"
  by (simp add: marks_def)

lemma Sentence_mark_safe_prune: "Sentence_mark_safe x s = prune {x} {} s"
proof (cases "x \<in> cells s")
  case True
  then show ?thesis by (cases s) (simp add: Sentence_mark_safe_def prune_def)
next
  case False
  then have "cells s - {x} = cells s" by auto
  with False show ?thesis by (cases s) (simp add: Sentence_mark_safe_def prune_def)
qed

lemma Sentence_mark_mine_prune: "Sentence_mark_mine x s = prune {} {x} s"
proof (cases "x \<in> cells s")
  case True
  then have "cells s \<inter> {x} = {x}" by auto
  with True show ?thesis by (cases s) (simp add: Sentence_mark_mine_def prune_def)
next
  case False
  then have "cells s - {x} = cells s" "cells s \<inter> {x} = {}" by auto
  with False show ?thesis by (cases s) (simp add: Sentence_mark_mine_def prune_def)
qed

lemma prune_safe_safe: "prune S' {} (prune S {} s) = prune (S \<union> S') {} s"
proof -
  have "cells s - S - S' = cells s - (S \<union> S')" by auto
  then show ?thesis by (simp add: prune_def)
qed

lemma prune_mine_mine:
  assumes "finite M" "finite M'" "M \<inter> M' = {}"
  shows "prune {} M' (prune {} M s) = prune {} (M \<union> M') s"
proof -
  have c: "cells s - M - M' = cells s - (M \<union> M')" by auto
  have "cells s \<inter> (M \<union> M') = (cells s \<inter> M) \<union> ((cells s - M) \<inter> M')" by auto
  moreover have "(cells s \<inter> M) \<inter> ((cells s - M) \<inter> M') = {}" by auto
  ultimately have "card (cells s \<inter> (M \<union> M')) = card (cells s \<inter> M) + card ((cells s - M) \<inter> M')"
    using assms by (simp add: card_Un_disjoint)
  with c show ?thesis by (simp add: prune_def)
qed

lemma prune_safe_mine: "prune {} M (prune S {} s) = prune S M s"
  by (simp add: prune_def)

lemma fold_Sentence_mark_safe:
  "fold Sentence_mark_safe xs s = prune (set xs) {} s"
proof (induction xs arbitrary: s)
  case Nil
  show ?case by simp
next
  case (Cons x xs)
  have "fold Sentence_mark_safe (x # xs) s = prune (set xs) {} (prune {x} {} s)"
    by (simp add: Cons Sentence_mark_safe_prune)
  then show ?case by (simp add: prune_safe_safe)
qed

lemma fold_Sentence_mark_mine:
  "distinct xs \<Longrightarrow> fold Sentence_mark_mine xs s = prune {} (set xs) s"
proof (induction xs arbitrary: s)
  case Nil
  show ?case by simp
next
  case (Cons x xs)
  then have d: "x \<notin> set xs" "distinct xs" by auto
  have "fold Sentence_mark_mine (x # xs) s = prune {} (set xs) (prune {} {x} s)"
    by (simp add: Cons.IH [OF d(2)] Sentence_mark_mine_prune)
  also have "\<dots> = prune {} ({x} \<union> set xs) s"
    using d(1) by (intro prune_mine_mine) auto
  finally show ?case by simp
qed

lemma mark_safe_marks: "mark_safe x st = marks {x} {} st"
  by (simp add: mark_safe_def marks_def Sentence_mark_safe_prune [abs_def])

lemma mark_mine_marks: "mark_mine x st = marks {} {x} st"
  by (simp add: mark_mine_def marks_def Sentence_mark_mine_prune [abs_def])

lemma marks_safe_safe: "marks S' {} (marks S {} st) = marks (S \<union> S') {} st"
  by (simp add: marks_def prune_safe_safe comp_def Un_assoc)

lemma marks_mine_mine:
  "finite M \<Longrightarrow> finite M' \<Longrightarrow> M \<inter> M' = {} \<Longrightarrow>
   marks {} M' (marks {} M st) = marks {} (M \<union> M') st"
  by (simp add: marks_def prune_mine_mine comp_def Un_assoc)

lemma fold_mark_safe: "fold mark_safe xs st = marks (set xs) {} st"
proof (induction xs arbitrary: st)
  case Nil
  show ?case by simp
next
  case (Cons x xs)
  have "fold mark_safe (x # xs) st = marks (set xs) {} (marks {x} {} st)"
    by (simp add: Cons mark_safe_marks)
  then show ?case by (simp add: marks_safe_safe)
qed

lemma fold_mark_mine: "distinct xs \<Longrightarrow> fold mark_mine xs st = marks {} (set xs) st"
proof (induction xs arbitrary: st)
  case Nil
  show ?case by simp
next
  case (Cons x xs)
  then have d: "x \<notin> set xs" "distinct xs" by auto
  have "fold mark_mine (x # xs) st = marks {} (set xs) (marks {} {x} st)"
    by (simp add: Cons.IH [OF d(2)] mark_mine_marks)
  also have "\<dots> = marks {} ({x} \<union> set xs) st"
    using d(1) by (intro marks_mine_mine) auto
  finally show ?case by simp
qed

lemma marks_marks: "marks {} M (marks S {} st) = marks S M st"
  by (simp add: marks_def prune_safe_mine comp_def)

lemma mark_known:
  assumes "finite S" "finite M"
  shows "fold mark_mine (iter M) (fold mark_safe (iter S) st) = marks S M st"
  by (simp add: fold_mark_safe fold_mark_mine distinct_iter set_iter assms marks_marks)

text \<open>Any other order of visiting the set gives the same state.\<close>

lemma fold_mark_safe_any_order:
  "finite S \<Longrightarrow> set xs = S \<Longrightarrow> fold mark_safe xs st = fold mark_safe (iter S) st"
  by (simp add: fold_mark_safe set_iter)

lemma fold_mark_mine_any_order:
  "finite S \<Longrightarrow> set xs = S \<Longrightarrow> distinct xs \<Longrightarrow>
   fold mark_mine xs st = fold mark_mine (iter S) st"
  by (simp add: fold_mark_mine set_iter distinct_iter)

lemma Sentence_fold_any_order:
  "finite S \<Longrightarrow> set xs = S \<Longrightarrow> distinct xs \<Longrightarrow>
   fold Sentence_mark_safe xs s = fold Sentence_mark_safe (iter S) s \<and>
   fold Sentence_mark_mine xs s = fold Sentence_mark_mine (iter S) s"
  by (simp add: fold_Sentence_mark_safe fold_Sentence_mark_mine set_iter distinct_iter)







subsection \<open>Removing sentences\<close>

lemma remove_resolved_mset:
  "mset R \<subseteq># mset K \<Longrightarrow> \<exists>K'. remove_resolved R K = Inr K' \<and> mset K' = mset K - mset R"
proof (induction R arbitrary: K)
  case Nil
  show ?case by simp
next
  case (Cons s R)
  then have s: "s \<in> set K" and sub: "mset R \<subseteq># mset (remove1 s K)"
    by (simp_all add: insert_subset_eq_iff)
  from Cons.IH [OF sub] obtain K' where
    "remove_resolved R (remove1 s K) = Inr K'" "mset K' = mset (remove1 s K) - mset R"
    by blast
  with s show ?case by (simp add: list_remove_eq)
qed

lemma remove_resolved_set: "remove_resolved R K = Inr K' \<Longrightarrow> set K' \<subseteq> set K"
proof (induction R arbitrary: K)
  case Nil
  then show ?case by simp
next
  case (Cons s R)
  from Cons.prems have r: "remove_resolved R (remove1 s K) = Inr K'"
    by (simp add: list_remove_eq split: if_splits)
  have "set K' \<subseteq> set (remove1 s K)" by (rule Cons.IH [OF r])
  also have "\<dots> \<subseteq> set K" by (rule set_remove1_subset)
  finally show ?case .
qed

lemma mset_fold_remove_ignoring:
  "mset (fold remove_ignoring R K) = mset K - mset R"
  by (induction R arbitrary: K) (simp_all add: remove_ignoring_eq)

lemma set_fold_remove_ignoring: "set (fold remove_ignoring R K) \<subseteq> set K"
  by (metis mset_fold_remove_ignoring diff_subset_eq_self set_mset_mono set_mset_mset)

lemma mset_nths_subset:
  assumes "distinct is" "set is \<subseteq> {..<length K}"
  shows "mset (map ((!) K) is) \<subseteq># mset K"
proof -
  have "set is \<subseteq> {0..<length K}" using assms(2) by auto
  then have "mset_set (set is) \<subseteq># mset_set {0..<length K}"
    by (intro subset_imp_msubset_mset_set) simp_all
  then have "mset is \<subseteq># mset [0..<length K]"
    using assms(1) by (simp add: mset_set_set)
  then have "image_mset ((!) K) (mset is) \<subseteq># image_mset ((!) K) (mset [0..<length K])"
    by (rule image_mset_subseteq_mono)
  moreover have "image_mset ((!) K) (mset [0..<length K]) = mset K"
    by (metis map_nth mset_map)
  ultimately show ?thesis by simp
qed

subsection \<open>The subset pass\<close>

lemma set_subset_pairs:
  "set (subset_pairs K) = {(a, b). a \<in> set K \<and> b \<in> set K \<and> cells a \<subset> cells b}"
  by (auto simp: subset_pairs_def split: if_splits)

lemma subset_pass_held_or_derived:
  "s \<in> set (subset_pass K) \<Longrightarrow> held_or_derived K s"
proof -
  assume "s \<in> set (subset_pass K)"
  then have "s \<in> set (K @ map derived (subset_pairs K))"
    using set_fold_remove_ignoring [of "map snd (subset_pairs K)" "K @ map derived (subset_pairs K)"]
    by (auto simp: subset_pass_def Let_def)
  then show ?thesis
    by (auto simp: held_or_derived_def set_subset_pairs)
qed

lemma subset_pass_no_pairs: "subset_pairs K = [] \<Longrightarrow> subset_pass K = K"
  by (simp add: subset_pass_def)

subsection \<open>The resolution loop\<close>

lemma known_finite:
  "finite (cells s) \<Longrightarrow> finite (known_safes s) \<and> finite (known_mines s)"
  by (simp add: known_safes_def known_mines_def)

lemma resolve_step_eq:
  assumes "finite (cells (knowledge st ! i))"
  shows "resolve_step i (st, res) =
    (let s = knowledge st ! i; st2 = marks (known_safes s) (known_mines s) st
     in (st2, if known_safes s \<noteq> {} \<or> known_mines s \<noteq> {} \<or> cells (knowledge st2 ! i) = {}
              then res @ [i] else res))"
  using known_finite [OF assms] by (simp add: resolve_step_def Let_def mark_known)

lemma resolve_step_res:
  "fst (resolve_step i (st, res)) = fst (resolve_step i (st, [])) \<and>
   snd (resolve_step i (st, res)) = res @ snd (resolve_step i (st, [])) \<and>
   (snd (resolve_step i (st, [])) = [] \<or> snd (resolve_step i (st, [])) = [i])"
  by (simp add: resolve_step_def Let_def)

lemma fold_resolve_step_res:
  "fst (fold resolve_step is (st, res)) = fst (fold resolve_step is (st, [])) \<and>
   snd (fold resolve_step is (st, res)) = res @ snd (fold resolve_step is (st, []))"
proof (induction "is" arbitrary: st res)
  case Nil
  show ?case by simp
next
  case (Cons i "is")
  obtain st2 ex where r: "resolve_step i (st, []) = (st2, ex)" by (cases "resolve_step i (st, [])")
  with resolve_step_res [of i st res] have r': "resolve_step i (st, res) = (st2, res @ ex)"
    by (cases "resolve_step i (st, res)") simp
  show ?case
    using Cons [of st2 "res @ ex"] Cons [of st2 ex] by (simp add: r r')
qed

lemma fold_resolve_step_indices:
  "set (snd (fold resolve_step is (st, []))) \<subseteq> set is \<and>
   (distinct is \<longrightarrow> distinct (snd (fold resolve_step is (st, []))))"
proof (induction "is" arbitrary: st)
  case Nil
  show ?case by simp
next
  case (Cons i "is")
  obtain st2 ex where r: "resolve_step i (st, []) = (st2, ex)" by (cases "resolve_step i (st, [])")
  with resolve_step_res [of i st "[]"] have ex: "ex = [] \<or> ex = [i]" by simp
  have "snd (fold resolve_step (i # is) (st, [])) = ex @ snd (fold resolve_step is (st2, []))"
    using fold_resolve_step_res [of "is" st2 ex] by (simp add: r)
  with Cons [of st2] ex show ?case by auto
qed

lemma marks_length [simp]: "length (knowledge (marks S M st)) = length (knowledge st)"
  by (simp add: marks_def)

lemma fold_resolve_step_invariant:
  assumes "P st" "length (knowledge st) = n" "set is \<subseteq> {..<n}"
    and fin: "\<And>st. P st \<Longrightarrow> finite_cells (knowledge st)"
    and step: "\<And>st s. P st \<Longrightarrow> s \<in> set (knowledge st) \<Longrightarrow>
                 P (marks (known_safes s) (known_mines s) st)"
  shows "P (fst (fold resolve_step is (st, res))) \<and>
         length (knowledge (fst (fold resolve_step is (st, res)))) = n"
  using assms(1-3)
proof (induction "is" arbitrary: st res)
  case Nil
  then show ?case by simp
next
  case (Cons i "is")
  then have i: "i < length (knowledge st)" by simp
  then have mem: "knowledge st ! i \<in> set (knowledge st)" by simp
  with fin [OF Cons.prems(1)] have f: "finite (cells (knowledge st ! i))"
    by (simp add: finite_cells_def)
  let ?st2 = "marks (known_safes (knowledge st ! i)) (known_mines (knowledge st ! i)) st"
  have "P ?st2" by (rule step [OF Cons.prems(1) mem])
  moreover have "length (knowledge ?st2) = n" using Cons.prems(2) by simp
  moreover have "set is \<subseteq> {..<n}" using Cons.prems(3) by simp
  ultimately show ?case
    using Cons.IH [of ?st2] by (simp add: resolve_step_eq [OF f] Let_def)
qed

lemma resolve_loop_invariant:
  assumes "P st"
    and "\<And>st. P st \<Longrightarrow> finite_cells (knowledge st)"
    and "\<And>st s. P st \<Longrightarrow> s \<in> set (knowledge st) \<Longrightarrow>
                 P (marks (known_safes s) (known_mines s) st)"
  shows "P (fst (resolve_loop st)) \<and>
         length (knowledge (fst (resolve_loop st))) = length (knowledge st)"
  unfolding resolve_loop_def
  by (rule fold_resolve_step_invariant [OF assms(1) refl _ assms(2,3)]) auto

lemma resolve_loop_indices:
  "distinct (snd (resolve_loop st)) \<and>
   set (snd (resolve_loop st)) \<subseteq> {..<length (knowledge st)}"
  using fold_resolve_step_indices [of "[0..<length (knowledge st)]" st]
  by (auto simp: resolve_loop_def)

lemma finite_cells_marks:
  "finite_cells (knowledge st) \<Longrightarrow> finite_cells (knowledge (marks S M st))"
  by (auto simp: finite_cells_def marks_def prune_def)

lemma resolve_loop_finite:
  assumes "finite_cells (knowledge st)"
  shows "finite_cells (knowledge (fst (resolve_loop st))) \<and>
         length (knowledge (fst (resolve_loop st))) = length (knowledge st)"
  by (rule resolve_loop_invariant [where P = "\<lambda>st. finite_cells (knowledge st)"])
     (simp_all add: assms finite_cells_marks)

text \<open>A pass never raises: every queued sentence is still in the list when it is removed.\<close>

lemma pass_total:
  assumes "finite_cells (knowledge st)"
  shows "\<exists>K1. remove_resolved (map ((!) (knowledge (fst (resolve_loop st)))) (snd (resolve_loop st)))
                 (knowledge (fst (resolve_loop st))) = Inr K1 \<and>
              mset K1 = mset (knowledge (fst (resolve_loop st))) -
                 mset (map ((!) (knowledge (fst (resolve_loop st)))) (snd (resolve_loop st))) \<and>
              pass st = Inr ((fst (resolve_loop st))\<lparr>knowledge := subset_pass K1\<rparr>,
                             snd (resolve_loop st) = [] \<and> subset_pairs K1 = [])"
proof -
  let ?st1 = "fst (resolve_loop st)" and ?res = "snd (resolve_loop st)"
  have "mset (map ((!) (knowledge ?st1)) ?res) \<subseteq># mset (knowledge ?st1)"
    using resolve_loop_indices [of st] resolve_loop_finite [OF assms]
    by (intro mset_nths_subset) auto
  from remove_resolved_mset [OF this] obtain K1 where
    K1: "remove_resolved (map ((!) (knowledge ?st1)) ?res) (knowledge ?st1) = Inr K1"
      "mset K1 = mset (knowledge ?st1) - mset (map ((!) (knowledge ?st1)) ?res)"
    by blast
  then show ?thesis
    by (simp add: pass_def case_prod_beta)
qed






lemma unknown_marks:
  "unknown (knowledge (marks S M st)) = unknown (knowledge st) - S - M"
  by (auto simp: unknown_def marks_def prune_def)

lemma known_subset: "known_safes s \<subseteq> cells s \<and> known_mines s \<subseteq> cells s"
  by (simp add: known_safes_def known_mines_def)

lemma fold_resolve_step_cases:
  assumes "finite_cells (knowledge st)" "set is \<subseteq> {..<length (knowledge st)}"
  shows "unknown (knowledge (fst (fold resolve_step is (st, [])))) \<subseteq> unknown (knowledge st) \<and>
         (unknown (knowledge (fst (fold resolve_step is (st, [])))) = unknown (knowledge st) \<longrightarrow>
            fst (fold resolve_step is (st, [])) = st \<and>
            snd (fold resolve_step is (st, [])) = filter (\<lambda>i. cells (knowledge st ! i) = {}) is)"
  using assms
proof (induction "is" arbitrary: st)
  case Nil
  show ?case by simp
next
  case (Cons i "is")
  let ?s = "knowledge st ! i"
  let ?st2 = "marks (known_safes ?s) (known_mines ?s) st"
  let ?ex = "if known_safes ?s \<noteq> {} \<or> known_mines ?s \<noteq> {} \<or> cells (knowledge ?st2 ! i) = {}
             then [i] else []"
  from Cons.prems have i: "i < length (knowledge st)" by simp
  then have mem: "?s \<in> set (knowledge st)" by simp
  with Cons.prems(1) have f: "finite (cells ?s)" by (simp add: finite_cells_def)
  have step: "resolve_step i (st, []) = (?st2, ?ex)"
    by (simp add: resolve_step_eq [OF f] Let_def)
  have fst_eq: "fst (fold resolve_step (i # is) (st, [])) = fst (fold resolve_step is (?st2, []))"
    using fold_resolve_step_res [of "is" ?st2 ?ex] by (simp add: step)
  have snd_eq: "snd (fold resolve_step (i # is) (st, [])) = ?ex @ snd (fold resolve_step is (?st2, []))"
    using fold_resolve_step_res [of "is" ?st2 ?ex] by (simp add: step)
  have IH: "unknown (knowledge (fst (fold resolve_step is (?st2, [])))) \<subseteq> unknown (knowledge ?st2) \<and>
     (unknown (knowledge (fst (fold resolve_step is (?st2, [])))) = unknown (knowledge ?st2) \<longrightarrow>
        fst (fold resolve_step is (?st2, [])) = ?st2 \<and>
        snd (fold resolve_step is (?st2, [])) = filter (\<lambda>i. cells (knowledge ?st2 ! i) = {}) is)"
    using Cons.prems by (intro Cons.IH) (simp_all add: finite_cells_marks)
  have sub2: "unknown (knowledge ?st2) = unknown (knowledge st) - known_safes ?s - known_mines ?s"
    by (rule unknown_marks)
  have in_unknown: "cells ?s \<subseteq> unknown (knowledge st)"
    using mem by (auto simp: unknown_def)
  show ?case
  proof (cases "known_safes ?s = {} \<and> known_mines ?s = {}")
    case True
    then have e: "?st2 = st" by simp
    note IH' = IH [unfolded e]
    show ?thesis unfolding fst_eq snd_eq e using IH' True by auto
  next
    case False
    with known_subset [of ?s] in_unknown sub2
    have "unknown (knowledge ?st2) \<subset> unknown (knowledge st)" by auto
    with IH show ?thesis unfolding fst_eq snd_eq by auto
  qed
qed

lemma resolve_loop_cases:
  assumes "finite_cells (knowledge st)"
  shows "unknown (knowledge (fst (resolve_loop st))) \<subset> unknown (knowledge st) \<or>
         fst (resolve_loop st) = st \<and>
         map ((!) (knowledge st)) (snd (resolve_loop st)) =
           filter (\<lambda>s. cells s = {}) (knowledge st)"
proof -
  let ?is = "[0..<length (knowledge st)]"
  have c: "unknown (knowledge (fst (resolve_loop st))) \<subseteq> unknown (knowledge st) \<and>
         (unknown (knowledge (fst (resolve_loop st))) = unknown (knowledge st) \<longrightarrow>
            fst (resolve_loop st) = st \<and>
            snd (resolve_loop st) = filter (\<lambda>i. cells (knowledge st ! i) = {}) ?is)"
    unfolding resolve_loop_def using assms by (intro fold_resolve_step_cases) auto
  have "map ((!) (knowledge st)) (filter (\<lambda>i. cells (knowledge st ! i) = {}) ?is) =
        filter (\<lambda>s. cells s = {}) (map ((!) (knowledge st)) ?is)"
    by (simp add: filter_map comp_def)
  also have "\<dots> = filter (\<lambda>s. cells s = {}) (knowledge st)"
    by (simp add: map_nth)
  finally show ?thesis using c by auto
qed




subsection \<open>What a pass can bring into the list\<close>

lemma held_or_derived_mono:
  "set K \<subseteq> set K' \<Longrightarrow> held_or_derived K s \<Longrightarrow> held_or_derived K' s"
  by (auto simp: held_or_derived_def)

lemma cells_derived [simp]: "cells (derived (a, b)) = cells b - cells a"
  by (simp add: derived_def Sentence_def)

lemma count_derived [simp]: "count (derived (a, b)) = count b - count a"
  by (simp add: derived_def Sentence_def)

lemma unknown_held_or_derived:
  assumes "\<forall>s\<in>set K'. held_or_derived K s"
  shows "unknown K' \<subseteq> unknown K"
  using assms by (fastforce simp: unknown_def held_or_derived_def)

lemma finite_cells_held_or_derived:
  assumes "\<forall>s\<in>set K'. held_or_derived K s" "finite_cells K"
  shows "finite_cells K'"
  using assms by (fastforce simp: finite_cells_def held_or_derived_def)

lemma finite_unknown: "finite_cells K \<Longrightarrow> finite (unknown K)"
  by (simp add: unknown_def finite_cells_def)

subsection \<open>The multiset of sentence sizes\<close>

lemma sizes_mono: "mset K' \<subseteq># mset K \<Longrightarrow> sizes K' \<subseteq># sizes K"
  by (simp add: sizes_def image_mset_subseteq_mono)

lemma sizes_strict_mono: "mset K' \<subset># mset K \<Longrightarrow> sizes K' \<subset># sizes K"
  by (simp add: sizes_def image_mset_subset_mono)

lemma mult_subset_left:
  assumes "A \<subseteq># B" "(B, C) \<in> mult less_than"
  shows "(A, C) \<in> mult less_than"
proof (cases "A = B")
  case True
  with assms show ?thesis by simp
next
  case False
  with assms(1) have "A \<subset># B" by (simp add: subset_mset.less_le)
  then have "(A, B) \<in> mult less_than" by (rule subset_implies_mult)
  with assms(2) show ?thesis
    using trans_mult [OF trans_less_than] by (blast dest: transD)
qed

lemma mult_subset_right:
  assumes "(A, B) \<in> mult less_than" "B \<subseteq># C"
  shows "(A, C) \<in> mult less_than"
proof (cases "B = C")
  case True
  with assms show ?thesis by simp
next
  case False
  with assms(2) have "B \<subset># C" by (simp add: subset_mset.less_le)
  then have "(B, C) \<in> mult less_than" by (rule subset_implies_mult)
  with assms(1) show ?thesis
    using trans_mult [OF trans_less_than] by (blast dest: transD)
qed

lemma inner_pairs:
  "concat (map (\<lambda>b. map snd (if cells a = cells b then []
      else if cells a \<subseteq> cells b then [(a, b)] else [])) L) =
   filter (\<lambda>b. cells a \<subset> cells b) L"
  by (induction L) auto

lemma map_snd_subset_pairs:
  "map snd (subset_pairs K) = concat (map (\<lambda>a. filter (\<lambda>b. cells a \<subset> cells b) K) K)"
  by (simp add: subset_pairs_def map_concat comp_def inner_pairs)

lemma mset_concat_member:
  "x \<in> set xs \<Longrightarrow> mset (f x) \<subseteq># mset (concat (map f xs))"
proof (induction xs)
  case Nil
  then show ?case by simp
next
  case (Cons y ys)
  show ?case
  proof (cases "x = y")
    case True
    then show ?thesis by simp
  next
    case False
    with Cons have "mset (f x) \<subseteq># mset (concat (map f ys))" by simp
    then show ?thesis by (simp add: subset_mset.add_increasing)
  qed
qed

lemma supersets_queued:
  "filter_mset (\<lambda>b. \<exists>a\<in>set K. cells a \<subset> cells b) (mset K) \<subseteq># mset (map snd (subset_pairs K))"
proof (rule mset_subset_eqI)
  fix b
  show "Multiset.count (filter_mset (\<lambda>b. \<exists>a\<in>set K. cells a \<subset> cells b) (mset K)) b
          \<le> Multiset.count (mset (map snd (subset_pairs K))) b"
  proof (cases "\<exists>a\<in>set K. cells a \<subset> cells b")
    case True
    then obtain a where a: "a \<in> set K" "cells a \<subset> cells b" by blast
    have "Multiset.count (mset (filter (\<lambda>b. cells a \<subset> cells b) K)) b
            \<le> Multiset.count (mset (concat (map (\<lambda>a. filter (\<lambda>b. cells a \<subset> cells b) K) K))) b"
      by (intro mset_subset_eq_count mset_concat_member [OF a(1)])
    with a(2) True show ?thesis by (simp add: map_snd_subset_pairs)
  next
    case False
    then show ?thesis by simp
  qed
qed

lemma mset_diff_antimono: "B \<subseteq># C \<Longrightarrow> A - C \<subseteq># A - (B::'a multiset)"
  by (rule mset_subset_eqI) (simp add: mset_subset_eq_count diff_le_mono2)

lemma mset_subset_pass:
  "mset (subset_pass K) =
     mset K + mset (map derived (subset_pairs K)) - mset (map snd (subset_pairs K))"
  by (simp add: subset_pass_def Let_def mset_fold_remove_ignoring)

lemma subset_pass_decreases:
  assumes fin: "finite_cells K" and ne: "\<forall>s\<in>set K. cells s \<noteq> {}"
    and pairs: "subset_pairs K \<noteq> []"
  shows "(sizes (subset_pass K), sizes K) \<in> mult less_than"
proof -
  let ?f = "\<lambda>s. card (cells s)"
  let ?S = "filter_mset (\<lambda>b. \<exists>a\<in>set K. cells a \<subset> cells b) (mset K)"
  let ?N = "mset (map derived (subset_pairs K))"
  let ?I = "mset K - ?S"
  have split: "mset K = ?I + ?S" by simp
  have "mset (subset_pass K) \<subseteq># mset K + ?N - ?S"
    unfolding mset_subset_pass by (rule mset_diff_antimono [OF supersets_queued])
  also have "mset K + ?N - ?S = ?I + ?N"
    by (simp add: multiset_eq_iff)
  finally have sub: "mset (subset_pass K) \<subseteq># ?I + ?N" .
  have le: "sizes (subset_pass K) \<subseteq># image_mset ?f ?I + image_mset ?f ?N"
    using image_mset_subseteq_mono [OF sub, of ?f]
    by (simp only: sizes_def mset_map image_mset_union)
  from pairs obtain a b where "(a, b) \<in> set (subset_pairs K)"
    by (cases "subset_pairs K") auto
  then have "b \<in># ?S" by (auto simp: set_subset_pairs)
  then have J: "image_mset ?f ?S \<noteq> {#}" by auto
  have smaller: "\<forall>k \<in># image_mset ?f ?N. \<exists>j \<in># image_mset ?f ?S. (k, j) \<in> less_than"
  proof
    fix k assume "k \<in># image_mset ?f ?N"
    then obtain a b where ab: "(a, b) \<in> set (subset_pairs K)" and k: "k = card (cells b - cells a)"
      by auto
    then have mem: "a \<in> set K" "b \<in> set K" "cells a \<subset> cells b"
      by (auto simp: set_subset_pairs)
    with fin ne have "finite (cells b)" "cells a \<noteq> {}" by (auto simp: finite_cells_def)
    with mem(3) have "cells b - cells a \<subset> cells b" by auto
    with \<open>finite (cells b)\<close> have "card (cells b - cells a) < card (cells b)"
      by (rule psubset_card_mono)
    moreover have "b \<in># ?S" using mem by auto
    ultimately show "\<exists>j \<in># image_mset ?f ?S. (k, j) \<in> less_than"
      using k by auto
  qed
  have "(image_mset ?f ?I + image_mset ?f ?N, image_mset ?f ?I + image_mset ?f ?S) \<in> mult less_than"
    by (rule one_step_implies_mult [OF J smaller])
  moreover have "sizes K = image_mset ?f ?I + image_mset ?f ?S"
    using arg_cong [OF split, of "image_mset ?f"]
    by (simp only: sizes_def mset_map image_mset_union)
  ultimately show ?thesis
    using le by (auto intro: mult_subset_left)
qed




lemma wf_pass_order: "wf pass_order"
  unfolding pass_order_def by (intro wf_inv_image wf_lex_prod wf_less_than wf_mult)

lemma pass_shape:
  assumes "finite_cells (knowledge st)"
  obtains K1 where
    "set K1 \<subseteq> set (knowledge (fst (resolve_loop st)))"
    "mset K1 = mset (knowledge (fst (resolve_loop st))) -
       mset (map ((!) (knowledge (fst (resolve_loop st)))) (snd (resolve_loop st)))"
    "pass st = Inr ((fst (resolve_loop st))\<lparr>knowledge := subset_pass K1\<rparr>,
                    snd (resolve_loop st) = [] \<and> subset_pairs K1 = [])"
proof -
  from pass_total [OF assms] obtain K1 where
    K1: "remove_resolved (map ((!) (knowledge (fst (resolve_loop st)))) (snd (resolve_loop st)))
                 (knowledge (fst (resolve_loop st))) = Inr K1"
      "mset K1 = mset (knowledge (fst (resolve_loop st))) -
                 mset (map ((!) (knowledge (fst (resolve_loop st)))) (snd (resolve_loop st)))"
      "pass st = Inr ((fst (resolve_loop st))\<lparr>knowledge := subset_pass K1\<rparr>,
                             snd (resolve_loop st) = [] \<and> subset_pairs K1 = [])"
    by blast
  from remove_resolved_set [OF K1(1)] K1(2,3) that show thesis by blast
qed

lemma pass_held_or_derived:
  assumes "finite_cells (knowledge st)" "pass st = Inr r"
  shows "\<exists>K2. fst r = (fst (resolve_loop st))\<lparr>knowledge := K2\<rparr> \<and>
           (\<forall>s\<in>set K2. held_or_derived (knowledge (fst (resolve_loop st))) s)"
proof -
  from pass_shape [OF assms(1)] obtain K1 where
    K1: "set K1 \<subseteq> set (knowledge (fst (resolve_loop st)))"
      "pass st = Inr ((fst (resolve_loop st))\<lparr>knowledge := subset_pass K1\<rparr>,
                    snd (resolve_loop st) = [] \<and> subset_pairs K1 = [])"
    by blast
  have "\<forall>s\<in>set (subset_pass K1). held_or_derived (knowledge (fst (resolve_loop st))) s"
    using subset_pass_held_or_derived held_or_derived_mono [OF K1(1)] by blast
  with K1(2) assms(2) show ?thesis by auto
qed

lemma pass_finite:
  assumes "finite_cells (knowledge st)" "pass st = Inr r"
  shows "finite_cells (knowledge (fst r))"
proof -
  from pass_held_or_derived [OF assms] obtain K2 where
    "fst r = (fst (resolve_loop st))\<lparr>knowledge := K2\<rparr>"
    "\<forall>s\<in>set K2. held_or_derived (knowledge (fst (resolve_loop st))) s"
    by blast
  with finite_cells_held_or_derived [OF this(2)] resolve_loop_finite [OF assms(1)]
  show ?thesis by simp
qed

lemma pass_decreases:
  assumes fin: "finite_cells (knowledge st)" and p: "pass st = Inr (st', False)"
  shows "(st', st) \<in> pass_order"
proof -
  let ?st1 = "fst (resolve_loop st)" and ?res = "snd (resolve_loop st)"
  from pass_shape [OF fin] obtain K1 where
    K1: "set K1 \<subseteq> set (knowledge ?st1)"
      "mset K1 = mset (knowledge ?st1) - mset (map ((!) (knowledge ?st1)) ?res)"
      "pass st = Inr (?st1\<lparr>knowledge := subset_pass K1\<rparr>, ?res = [] \<and> subset_pairs K1 = [])"
    by blast
  with p have st': "st' = ?st1\<lparr>knowledge := subset_pass K1\<rparr>"
    and notdone: "?res \<noteq> [] \<or> subset_pairs K1 \<noteq> []" by auto
  have hd: "\<forall>s\<in>set (subset_pass K1). held_or_derived (knowledge ?st1) s"
    using subset_pass_held_or_derived held_or_derived_mono [OF K1(1)] by blast
  have u2: "unknown (knowledge st') \<subseteq> unknown (knowledge ?st1)"
    using unknown_held_or_derived [OF hd] by (simp add: st')
  have finU: "finite (unknown (knowledge st))" by (rule finite_unknown [OF fin])
  from resolve_loop_cases [OF fin] show ?thesis
  proof
    assume "unknown (knowledge ?st1) \<subset> unknown (knowledge st)"
    with u2 have "unknown (knowledge st') \<subset> unknown (knowledge st)" by auto
    with finU have "card (unknown (knowledge st')) < card (unknown (knowledge st))"
      by (simp add: psubset_card_mono)
    then show ?thesis by (simp add: pass_order_def)
  next
    assume same: "?st1 = st \<and> map ((!) (knowledge st)) ?res = filter (\<lambda>s. cells s = {}) (knowledge st)"
    then have K1_eq: "mset K1 = mset (knowledge st) - mset (filter (\<lambda>s. cells s = {}) (knowledge st))"
      using K1(2) by simp
    have part: "mset (knowledge st) =
        mset (filter (\<lambda>s. cells s = {}) (knowledge st)) + mset (filter (\<lambda>s. cells s \<noteq> {}) (knowledge st))"
      using multiset_partition [of "mset (knowledge st)" "\<lambda>s. cells s = {}"] by simp
    have K1_ne: "mset K1 = mset (filter (\<lambda>s. cells s \<noteq> {}) (knowledge st))"
      unfolding K1_eq by (simp add: multiset_eq_iff)
    then have setK1: "set K1 = {s \<in> set (knowledge st). cells s \<noteq> {}}"
      by (metis set_filter mset_eq_setD)
    have K1_sub: "mset K1 \<subseteq># mset (knowledge st)"
      unfolding K1_eq by simp
    have finK1: "finite_cells K1" using fin setK1 by (auto simp: finite_cells_def)
    have cardle: "card (unknown (knowledge st')) \<le> card (unknown (knowledge st))"
      using u2 same finU by (simp add: card_mono)
    have "(sizes (knowledge st'), sizes (knowledge st)) \<in> mult less_than"
    proof (cases "subset_pairs K1 = []")
      case True
      with notdone have "?res \<noteq> []" by simp
      with same have "filter (\<lambda>s. cells s = {}) (knowledge st) \<noteq> []"
        by (metis map_is_Nil_conv)
      then obtain s where "s \<in> set (knowledge st)" "cells s = {}"
        by (metis (mono_tags, lifting) filter_False)
      with setK1 have "set K1 \<noteq> set (knowledge st)" by auto
      then have "mset K1 \<noteq> mset (knowledge st)" by (metis mset_eq_setD)
      with K1_sub have "mset K1 \<subset># mset (knowledge st)"
        by (simp add: subset_mset.less_le)
      then have "sizes K1 \<subset># sizes (knowledge st)" by (rule sizes_strict_mono)
      then have "(sizes K1, sizes (knowledge st)) \<in> mult less_than"
        by (rule subset_implies_mult)
      with True show ?thesis by (simp add: st' subset_pass_no_pairs)
    next
      case False
      have "(sizes (subset_pass K1), sizes K1) \<in> mult less_than"
        using finK1 setK1 False by (intro subset_pass_decreases) auto
      with sizes_mono [OF K1_sub] show ?thesis
        by (auto simp: st' intro: mult_subset_right)
    qed
    with cardle show ?thesis by (auto simp: pass_order_def)
  qed
qed

text \<open>The inference loop returns, and returns normally, from every state.\<close>

lemma inference_loop_returns:
  assumes "finite_cells (knowledge st)"
  shows "\<exists>st'. inference_loop st = Some (Inr st') \<and> finite_cells (knowledge st')"
  using wf_pass_order assms
proof (induction st rule: wf_induct_rule)
  case (less st)
  from pass_shape [OF less.prems] obtain r where r: "pass st = Inr r" by blast
  have fin': "finite_cells (knowledge (fst r))" by (rule pass_finite [OF less.prems r])
  show ?case
  proof (cases "snd r")
    case True
    with r fin' show ?thesis by (subst inference_loop.simps) simp
  next
    case False
    with r have "pass st = Inr (fst r, False)" by (cases r) simp
    then have "(fst r, st) \<in> pass_order" by (rule pass_decreases [OF less.prems])
    from less.IH [OF this fin'] obtain st' where
      "inference_loop (fst r) = Some (Inr st')" "finite_cells (knowledge st')" by blast
    with r False show ?thesis by (subst inference_loop.simps) simp
  qed
qed



subsection \<open>Invariants of a pass and of the loop\<close>

lemma pass_invariant:
  assumes "P st" "pass st = Inr r"
    and fin: "\<And>st. P st \<Longrightarrow> finite_cells (knowledge st)"
    and step: "\<And>st s. P st \<Longrightarrow> s \<in> set (knowledge st) \<Longrightarrow>
                 P (marks (known_safes s) (known_mines s) st)"
    and repl: "\<And>st K. P st \<Longrightarrow> \<forall>s\<in>set K. held_or_derived (knowledge st) s \<Longrightarrow>
                 P (st\<lparr>knowledge := K\<rparr>)"
  shows "P (fst r)"
proof -
  have P1: "P (fst (resolve_loop st))"
    using resolve_loop_invariant [of P st, OF assms(1) fin step] by blast
  from pass_held_or_derived [OF fin [OF assms(1)] assms(2)] obtain K2 where
    "fst r = (fst (resolve_loop st))\<lparr>knowledge := K2\<rparr>"
    "\<forall>s\<in>set K2. held_or_derived (knowledge (fst (resolve_loop st))) s"
    by blast
  with repl [OF P1] show ?thesis by simp
qed

text \<open>
  The loop returns from every state, with every property that each pass preserves; the
  state it returns is the result of a last pass that changed nothing.
\<close>

lemma inference_loop_result:
  assumes "finite_cells (knowledge st)" "P st"
    and step: "\<And>st r. finite_cells (knowledge st) \<Longrightarrow> P st \<Longrightarrow> pass st = Inr r \<Longrightarrow> P (fst r)"
  shows "\<exists>st' st0. inference_loop st = Some (Inr st') \<and> finite_cells (knowledge st') \<and> P st' \<and>
           finite_cells (knowledge st0) \<and> P st0 \<and> pass st0 = Inr (st', True)"
  using wf_pass_order assms(1,2)
proof (induction st rule: wf_induct_rule)
  case (less st)
  from pass_shape [OF less.prems(1)] obtain r where r: "pass st = Inr r" by blast
  have fin': "finite_cells (knowledge (fst r))" by (rule pass_finite [OF less.prems(1) r])
  have P': "P (fst r)" by (rule step [OF less.prems r])
  show ?case
  proof (cases "snd r")
    case True
    with r have "pass st = Inr (fst r, True)" by (cases r) simp
    moreover from True r have "inference_loop st = Some (Inr (fst r))"
      by (subst inference_loop.simps) simp
    ultimately show ?thesis using fin' P' less.prems by blast
  next
    case False
    with r have "pass st = Inr (fst r, False)" by (cases r) simp
    then have "(fst r, st) \<in> pass_order" by (rule pass_decreases [OF less.prems(1)])
    from less.IH [OF this fin' P'] obtain st' st0 where
      res: "inference_loop (fst r) = Some (Inr st')" "finite_cells (knowledge st')" "P st'"
        "finite_cells (knowledge st0)" "P st0" "pass st0 = Inr (st', True)" by blast
    from r False res(1) have "inference_loop st = Some (Inr st')"
      by (subst inference_loop.simps) simp
    with res show ?thesis by blast
  qed
qed

subsection \<open>Adding the sentence of a hint\<close>

lemma neighbors_marks [simp]: "neighbors (marks S M st) c = neighbors st c"
  by (simp add: neighbors_def marks_def)

lemma neighbors_moves [simp]: "neighbors (st\<lparr>moves_made := X\<rparr>) c = neighbors st c"
  by (simp add: neighbors_def)

lemma add_sentence_eq:
  "add_sentence c n st =
     (marks {c} {} st)\<lparr>moves_made := insert c (moves_made st),
        knowledge := map (prune {c} {}) (knowledge st) @
          [prune (set (iter (insert c (safes st)))) (set (iter (mines st)))
             (Sentence (set (neighbors st c)) n)]\<rparr>"
proof -
  have "add_sentence c n st =
     (marks {c} {} (st\<lparr>moves_made := insert c (moves_made st)\<rparr>))\<lparr>knowledge :=
        knowledge (marks {c} {} (st\<lparr>moves_made := insert c (moves_made st)\<rparr>)) @
          [prune (set (iter (safes (marks {c} {} (st\<lparr>moves_made := insert c (moves_made st)\<rparr>)))))
             (set (iter (mines (marks {c} {} (st\<lparr>moves_made := insert c (moves_made st)\<rparr>)))))
             (Sentence (set (neighbors st c)) n)]\<rparr>"
    by (simp add: add_sentence_def Let_def mark_safe_marks fold_Sentence_mark_safe
        fold_Sentence_mark_mine distinct_iter prune_safe_mine)
  then show ?thesis by (simp add: marks_def)
qed

lemma add_sentence_finite_cells:
  "finite_cells (knowledge st) \<Longrightarrow> finite_cells (knowledge (add_sentence c n st))"
proof -
  assume "finite_cells (knowledge st)"
  moreover have "finite (cells (prune S M (Sentence (set (neighbors st c)) n)))" for S M
    by (simp add: prune_def Sentence_def)
  ultimately show ?thesis
    by (auto simp: add_sentence_eq finite_cells_def prune_def)
qed

lemma add_knowledge_returns:
  assumes "finite_cells (knowledge st)"
  shows "\<exists>st'. add_knowledge c n st = Some (Inr st') \<and> finite_cells (knowledge st')"
  unfolding add_knowledge_def
  by (rule inference_loop_returns [OF add_sentence_finite_cells [OF assms]])

lemma exec_call_returns:
  assumes "finite_cells (knowledge st)"
  shows "\<exists>st'. exec_call x st = Some (Inr st') \<and> finite_cells (knowledge st')"
proof (cases x)
  case (Mark_mine c)
  with assms finite_cells_marks [of st "{}" "{c}"] show ?thesis
    by (simp add: mark_mine_marks)
next
  case (Mark_safe c)
  with assms finite_cells_marks [of st "{c}" "{}"] show ?thesis
    by (simp add: mark_safe_marks)
next
  case (Add_knowledge c n)
  with add_knowledge_returns [OF assms] show ?thesis by simp
qed

lemma exec_calls_returns:
  assumes "finite_cells (knowledge st)"
  shows "\<exists>st'. exec_calls xs st = Some (Inr st') \<and> finite_cells (knowledge st')"
  using assms
proof (induction xs arbitrary: st)
  case Nil
  then show ?case by simp
next
  case (Cons x xs)
  from exec_call_returns [OF Cons.prems] obtain st1 where
    "exec_call x st = Some (Inr st1)" "finite_cells (knowledge st1)" by blast
  with Cons.IH [OF this(2)] show ?case by simp
qed

lemma finite_cells_init: "finite_cells (knowledge (MinesweeperAI h w))"
  by (simp add: finite_cells_def MinesweeperAI_def)


section \<open>Termination of \<^verbatim>\<open>add_knowledge\<close>\<close>

text \<open>
  C1: for every grid and every sequence of hints, each call of \<^verbatim>\<open>add_knowledge\<close>
  returns, and returns normally: the whole sequence of calls, started on a fresh player,
  ends in a state. The hints need not even be valid. The measure that decreases on every
  pass that is not the last is \<open>pass_order\<close>.
\<close>

theorem add_knowledge_terminates:
  "\<exists>st. exec_calls (map (\<lambda>(c, n). Add_knowledge c n) hints) (MinesweeperAI h w) = Some (Inr st)"
  using exec_calls_returns [OF finite_cells_init] by blast

theorem add_knowledge_terminates_witness:
  "\<exists>st. exec_calls (map (\<lambda>(c, n). Add_knowledge c n) [((0, 0), 0), ((1, 1), 1)])
          (MinesweeperAI 3 3) = Some (Inr st)"
  using add_knowledge_terminates [of "[((0, 0), 0), ((1, 1), 1)]" 3 3] .

section \<open>Preconditions of \<^verbatim>\<open>add_knowledge\<close>\<close>

lemma set_neighbors:
  "set (neighbors st c) =
     {(i, j). (i \<noteq> fst c \<or> j \<noteq> snd c) \<and> fst c - 1 \<le> i \<and> i \<le> fst c + 1 \<and>
        snd c - 1 \<le> j \<and> j \<le> snd c + 1 \<and> in_bounds st (i, j)}"
  by (auto simp: neighbors_def in_bounds_def split: if_splits)

lemma pass_keeps_known:
  assumes "finite_cells (knowledge st) \<and> moves_made st = X \<and> S \<subseteq> safes st \<and> M \<subseteq> mines st"
    and "pass st = Inr r"
  shows "finite_cells (knowledge (fst r)) \<and> moves_made (fst r) = X \<and> S \<subseteq> safes (fst r) \<and>
         M \<subseteq> mines (fst r)"
proof (rule pass_invariant [where P = "\<lambda>st. finite_cells (knowledge st) \<and> moves_made st = X \<and>
        S \<subseteq> safes st \<and> M \<subseteq> mines st", OF assms])
  fix st :: ai and s
  assume "finite_cells (knowledge st) \<and> moves_made st = X \<and> S \<subseteq> safes st \<and> M \<subseteq> mines st"
  then show "finite_cells (knowledge (marks (known_safes s) (known_mines s) st)) \<and>
        moves_made (marks (known_safes s) (known_mines s) st) = X \<and>
        S \<subseteq> safes (marks (known_safes s) (known_mines s) st) \<and>
        M \<subseteq> mines (marks (known_safes s) (known_mines s) st)"
    using finite_cells_marks [of st] by (auto simp: marks_def)
next
  fix st :: ai and K
  assume "finite_cells (knowledge st) \<and> moves_made st = X \<and> S \<subseteq> safes st \<and> M \<subseteq> mines st"
    "\<forall>s\<in>set K. held_or_derived (knowledge st) s"
  then show "finite_cells (knowledge (st\<lparr>knowledge := K\<rparr>)) \<and>
        moves_made (st\<lparr>knowledge := K\<rparr>) = X \<and> S \<subseteq> safes (st\<lparr>knowledge := K\<rparr>) \<and>
        M \<subseteq> mines (st\<lparr>knowledge := K\<rparr>)"
    using finite_cells_held_or_derived [of K "knowledge st"] by simp
qed simp

lemma add_sentence_explicit:
  assumes "finite (safes st)" "finite (mines st)"
  shows "add_sentence c n st =
     st\<lparr>moves_made := insert c (moves_made st), safes := insert c (safes st),
        knowledge := map (Sentence_mark_safe c) (knowledge st) @
          [\<lparr>cells = set (neighbors st c) - insert c (safes st) - mines st,
            count = n - int (card ((set (neighbors st c) - insert c (safes st)) \<inter> mines st))\<rparr>]\<rparr>"
  using assms
  by (simp add: add_sentence_eq set_iter marks_def prune_def Sentence_def
      Sentence_mark_safe_prune [abs_def])

text \<open>
  C5, as the code has it: \<^verbatim>\<open>add_knowledge\<close> checks nothing. For every cell, inside
  the grid or not, every integer count and every state of finite sets, whether the cell
  was played before or not, the call returns normally, and what it returns is the result
  of the inference loop on the state in which the cell has been added to the moves made
  and to the safe cells and removed from every sentence held, and a new sentence has been
  appended: its cells are the neighbours of the cell (the positions of the 3 x 3 block
  around it, the cell itself left out, that lie inside the grid) that are neither safe
  cells nor known mines, and its count is the given count less the number of those
  neighbours that are known mines and not safe cells. At the return the moves made are
  those of before and the cell, and the safe cells and the known mines of before are
  still there.
\<close>

theorem add_knowledge_checks_nothing:
  assumes "finite (safes st)" "finite (mines st)" "finite_cells (knowledge st)"
  shows "\<exists>st'. add_knowledge c n st = Some (Inr st') \<and>
          inference_loop
            (st\<lparr>moves_made := insert c (moves_made st), safes := insert c (safes st),
                knowledge := map (Sentence_mark_safe c) (knowledge st) @
                  [\<lparr>cells = set (neighbors st c) - insert c (safes st) - mines st,
                    count = n - int (card ((set (neighbors st c) - insert c (safes st)) \<inter>
                                            mines st))\<rparr>]\<rparr>) = Some (Inr st') \<and>
          set (neighbors st c) =
            {(i, j). (i \<noteq> fst c \<or> j \<noteq> snd c) \<and> fst c - 1 \<le> i \<and> i \<le> fst c + 1 \<and>
               snd c - 1 \<le> j \<and> j \<le> snd c + 1 \<and> in_bounds st (i, j)} \<and>
          moves_made st' = insert c (moves_made st) \<and>
          insert c (safes st) \<subseteq> safes st' \<and> mines st \<subseteq> mines st'"
proof -
  let ?P = "\<lambda>st'. finite_cells (knowledge st') \<and> moves_made st' = insert c (moves_made st) \<and>
      insert c (safes st) \<subseteq> safes st' \<and> mines st \<subseteq> mines st'"
  let ?st0 = "add_sentence c n st"
  have fin: "finite_cells (knowledge ?st0)"
    by (rule add_sentence_finite_cells [OF assms(3)])
  then have P0: "?P ?st0"
    by (simp add: add_sentence_eq marks_def)
  have "\<exists>st' st0. inference_loop ?st0 = Some (Inr st') \<and>
          finite_cells (knowledge st') \<and> ?P st' \<and>
          finite_cells (knowledge st0) \<and> ?P st0 \<and> pass st0 = Inr (st', True)"
  proof (rule inference_loop_result [where P = ?P, OF fin P0])
    fix st1 :: ai and r
    assume "?P st1" "pass st1 = Inr r"
    then show "?P (fst r)" by (rule pass_keeps_known)
  qed
  then obtain st' where r: "inference_loop ?st0 = Some (Inr st')" "?P st'" by blast
  from r(1) have "add_knowledge c n st = Some (Inr st')" by (simp add: add_knowledge_def)
  moreover note r(1) [unfolded add_sentence_explicit [OF assms(1,2)]] set_neighbors [of st c]
  ultimately show ?thesis using r(2) by blast
qed

text \<open>
  At a fresh 2 x 2 player, the cell \<open>(2, 2)\<close>, which is outside the grid, and the
  count 9.
\<close>

theorem add_knowledge_checks_nothing_witness:
  "finite (safes (MinesweeperAI 2 2)) \<and> finite (mines (MinesweeperAI 2 2)) \<and>
   finite_cells (knowledge (MinesweeperAI 2 2)) \<and> \<not> in_bounds (MinesweeperAI 2 2) (2, 2) \<and>
   (\<exists>st'. add_knowledge (2, 2) 9 (MinesweeperAI 2 2) = Some (Inr st') \<and>
      inference_loop
        ((MinesweeperAI 2 2)
           \<lparr>moves_made := insert (2, 2) (moves_made (MinesweeperAI 2 2)),
            safes := insert (2, 2) (safes (MinesweeperAI 2 2)),
            knowledge := map (Sentence_mark_safe (2, 2)) (knowledge (MinesweeperAI 2 2)) @
              [\<lparr>cells = set (neighbors (MinesweeperAI 2 2) (2, 2)) -
                         insert (2, 2) (safes (MinesweeperAI 2 2)) - mines (MinesweeperAI 2 2),
                count = 9 - int (card ((set (neighbors (MinesweeperAI 2 2) (2, 2)) -
                                         insert (2, 2) (safes (MinesweeperAI 2 2))) \<inter>
                                        mines (MinesweeperAI 2 2)))\<rparr>]\<rparr>) = Some (Inr st') \<and>
      moves_made st' = insert (2, 2) (moves_made (MinesweeperAI 2 2)) \<and>
      insert (2, 2) (safes (MinesweeperAI 2 2)) \<subseteq> safes st' \<and>
      mines (MinesweeperAI 2 2) \<subseteq> mines st') \<and>
   set (neighbors (MinesweeperAI 2 2) (2, 2)) = {(1, 1)}"
proof -
  have 1: "finite (safes (MinesweeperAI 2 2))" "finite (mines (MinesweeperAI 2 2))"
    "finite_cells (knowledge (MinesweeperAI 2 2))"
    by (simp_all add: MinesweeperAI_def finite_cells_def)
  have 2: "\<not> in_bounds (MinesweeperAI 2 2) (2, 2)"
    by (simp add: in_bounds_def MinesweeperAI_def)
  have 3: "set (neighbors (MinesweeperAI 2 2) (2, 2)) = {(1, 1)}" by code_simp
  from add_knowledge_checks_nothing [OF 1, of "(2, 2)" 9] 1 2 3 show ?thesis by blast
qed

text \<open>
  C5 as stated fails: on a 2 x 2 board a hint for the cell \<open>(5, 5)\<close> with count 9 is
  accepted and changes the state, and so is a second hint for the cell \<open>(0, 0)\<close>.
\<close>

theorem add_knowledge_accepts_bad_input:
  "\<not> in_bounds (MinesweeperAI 2 2) (5, 5) \<and>
   add_knowledge (5, 5) 9 (MinesweeperAI 2 2) =
     Some (Inr \<lparr>height = 2, width = 2, moves_made = {(5, 5)}, mines = {},
                safes = {(5, 5)}, knowledge = []\<rparr>) \<and>
   exec_calls [Add_knowledge (0, 0) 3, Add_knowledge (0, 0) 3] (MinesweeperAI 2 2) =
     Some (Inr \<lparr>height = 2, width = 2, moves_made = {(0, 0)},
                mines = {(1, 1), (1, 0), (0, 1)}, safes = {(0, 0)}, knowledge = []\<rparr>)"
proof -
  have "\<not> in_bounds (MinesweeperAI 2 2) (5, 5)"
    by (simp add: in_bounds_def MinesweeperAI_def)
  moreover have "add_knowledge (5, 5) 9 (MinesweeperAI 2 2) =
     Some (Inr \<lparr>height = 2, width = 2, moves_made = {(5, 5)}, mines = {},
                safes = {(5, 5)}, knowledge = []\<rparr>)"
    by code_simp
  moreover have "exec_calls [Add_knowledge (0, 0) 3, Add_knowledge (0, 0) 3] (MinesweeperAI 2 2) =
     Some (Inr \<lparr>height = 2, width = 2, moves_made = {(0, 0)},
                mines = {(1, 1), (1, 0), (0, 1)}, safes = {(0, 0)}, knowledge = []\<rparr>)"
    by code_simp
  ultimately show ?thesis by simp
qed

section \<open>Sentences stay pruned\<close>




lemma tidy_marks:
  assumes "tidy st" "finite S" "finite M"
  shows "tidy (marks S M st)"
proof -
  have "finite_cells (knowledge (marks S M st))"
    using assms(1) by (simp add: tidy_def finite_cells_marks)
  moreover have "pruned (marks S M st)"
    using assms(1) by (auto simp: tidy_def pruned_def marks_def prune_def)
  moreover have "finite (safes (marks S M st))" "finite (mines (marks S M st))"
    using assms by (simp_all add: tidy_def marks_def)
  ultimately show ?thesis by (simp add: tidy_def)
qed

lemma tidy_replace:
  assumes "tidy st" "\<forall>s\<in>set K. held_or_derived (knowledge st) s"
  shows "tidy (st\<lparr>knowledge := K\<rparr>)"
proof -
  have "finite_cells K"
    using finite_cells_held_or_derived [OF assms(2)] assms(1) by (simp add: tidy_def)
  moreover have "cells s \<inter> (mines st \<union> safes st) = {}" if "s \<in> set K" for s
    using assms that by (fastforce simp: tidy_def pruned_def held_or_derived_def)
  ultimately show ?thesis using assms(1) by (simp add: tidy_def pruned_def)
qed

lemma tidy_pass:
  assumes "tidy st" "pass st = Inr r"
  shows "tidy (fst r)"
proof (rule pass_invariant [where P = tidy, OF assms])
  fix st :: ai
  assume "tidy st"
  then show "finite_cells (knowledge st)" by (simp add: tidy_def)
next
  fix st :: ai and s
  assume t: "tidy st" and "s \<in> set (knowledge st)"
  then have "finite (cells s)" by (simp add: tidy_def finite_cells_def)
  then show "tidy (marks (known_safes s) (known_mines s) st)"
    using known_finite [of s] by (intro tidy_marks [OF t]) simp_all
next
  fix st :: ai and K
  assume "tidy st" "\<forall>s\<in>set K. held_or_derived (knowledge st) s"
  then show "tidy (st\<lparr>knowledge := K\<rparr>)" by (rule tidy_replace)
qed

lemma tidy_add_sentence:
  assumes "tidy st"
  shows "tidy (add_sentence c n st)"
proof -
  let ?new = "prune (insert c (safes st)) (mines st) (Sentence (set (neighbors st c)) n)"
  from assms have fin: "finite (safes st)" "finite (mines st)" by (simp_all add: tidy_def)
  have eq: "add_sentence c n st =
      (marks {c} {} st)\<lparr>moves_made := insert c (moves_made st),
          knowledge := map (prune {c} {}) (knowledge st) @ [?new]\<rparr>"
    using fin by (simp add: add_sentence_eq set_iter)
  have t1: "tidy (marks {c} {} st)" by (rule tidy_marks [OF assms]) simp_all
  have "finite (cells ?new)" by (simp add: prune_def Sentence_def)
  moreover have "cells ?new \<inter> (mines st \<union> insert c (safes st)) = {}"
    by (auto simp: prune_def)
  ultimately show ?thesis
    using t1 unfolding eq by (simp add: tidy_def pruned_def finite_cells_def marks_def)
qed

lemma tidy_add_knowledge:
  assumes "tidy st"
  shows "\<exists>st'. add_knowledge c n st = Some (Inr st') \<and> tidy st'"
proof -
  have t: "tidy (add_sentence c n st)" by (rule tidy_add_sentence [OF assms])
  then have fin: "finite_cells (knowledge (add_sentence c n st))" by (simp add: tidy_def)
  have "\<exists>st' st0. inference_loop (add_sentence c n st) = Some (Inr st') \<and>
          finite_cells (knowledge st') \<and> tidy st' \<and>
          finite_cells (knowledge st0) \<and> tidy st0 \<and> pass st0 = Inr (st', True)"
  proof (rule inference_loop_result [where P = tidy, OF fin t])
    fix st :: ai and r
    assume "tidy st" "pass st = Inr r"
    then show "tidy (fst r)" by (rule tidy_pass)
  qed
  then show ?thesis unfolding add_knowledge_def by blast
qed

lemma tidy_exec_call:
  assumes "tidy st"
  shows "\<exists>st'. exec_call x st = Some (Inr st') \<and> tidy st'"
proof (cases x)
  case (Mark_mine c)
  with tidy_marks [OF assms, of "{}" "{c}"] show ?thesis by (simp add: mark_mine_marks)
next
  case (Mark_safe c)
  with tidy_marks [OF assms, of "{c}" "{}"] show ?thesis by (simp add: mark_safe_marks)
next
  case (Add_knowledge c n)
  with tidy_add_knowledge [OF assms] show ?thesis by simp
qed

lemma tidy_exec_calls:
  assumes "tidy st"
  shows "\<exists>st'. exec_calls xs st = Some (Inr st') \<and> tidy st'"
  using assms
proof (induction xs arbitrary: st)
  case Nil
  then show ?case by simp
next
  case (Cons x xs)
  from tidy_exec_call [OF Cons.prems] obtain st1 where
    "exec_call x st = Some (Inr st1)" "tidy st1" by blast
  with Cons.IH [OF this(2)] show ?case by simp
qed

lemma tidy_init: "tidy (MinesweeperAI h w)"
  by (simp add: tidy_def pruned_def finite_cells_def MinesweeperAI_def)

text \<open>
  C10: after every sequence of calls of the public operations \<^verbatim>\<open>mark_mine\<close>,
  \<^verbatim>\<open>mark_safe\<close> and \<^verbatim>\<open>add_knowledge\<close> on a fresh player, with any arguments, every
  held sentence is disjoint from the known mines and the known safe cells. Every prefix
  of a sequence of calls is such a sequence, so this holds whenever one of them returns.
\<close>

theorem sentences_stay_pruned:
  "\<exists>st. exec_calls xs (MinesweeperAI h w) = Some (Inr st) \<and> pruned st"
  using tidy_exec_calls [OF tidy_init, of xs h w] by (auto simp: tidy_def)

theorem sentences_stay_pruned_witness:
  "\<exists>st. exec_calls [Add_knowledge (0, 1) 1, Mark_mine (0, 0), Mark_safe (1, 0)]
          (MinesweeperAI 2 3) = Some (Inr st) \<and> pruned st"
  using sentences_stay_pruned [of "[Add_knowledge (0, 1) 1, Mark_mine (0, 0), Mark_safe (1, 0)]" 2 3] .


section \<open>What the list holds when \<^verbatim>\<open>add_knowledge\<close> returns\<close>





lemma fold_resolve_step_nothing:
  assumes "finite_cells (knowledge st)" "set is \<subseteq> {..<length (knowledge st)}"
    and "snd (fold resolve_step is (st, [])) = []"
  shows "fst (fold resolve_step is (st, [])) = st \<and>
         (\<forall>i\<in>set is. cells (knowledge st ! i) \<noteq> {} \<and> known_safes (knowledge st ! i) = {} \<and>
            known_mines (knowledge st ! i) = {})"
  using assms
proof (induction "is" arbitrary: st)
  case Nil
  show ?case by simp
next
  case (Cons i "is")
  let ?s = "knowledge st ! i"
  let ?st2 = "marks (known_safes ?s) (known_mines ?s) st"
  let ?ex = "if known_safes ?s \<noteq> {} \<or> known_mines ?s \<noteq> {} \<or> cells (knowledge ?st2 ! i) = {}
             then [i] else []"
  from Cons.prems have i: "i < length (knowledge st)" by simp
  with Cons.prems(1) have f: "finite (cells ?s)" by (simp add: finite_cells_def)
  have step: "resolve_step i (st, []) = (?st2, ?ex)"
    by (simp add: resolve_step_eq [OF f] Let_def)
  have fst_eq: "fst (fold resolve_step (i # is) (st, [])) = fst (fold resolve_step is (?st2, []))"
    using fold_resolve_step_res [of "is" ?st2 ?ex] by (simp add: step)
  have snd_eq: "snd (fold resolve_step (i # is) (st, [])) = ?ex @ snd (fold resolve_step is (?st2, []))"
    using fold_resolve_step_res [of "is" ?st2 ?ex] by (simp add: step)
  from Cons.prems(3) have ex: "?ex = []" and rest: "snd (fold resolve_step is (?st2, [])) = []"
    unfolding snd_eq by simp_all
  from ex have known: "known_safes ?s = {}" "known_mines ?s = {}"
    by (auto split: if_splits)
  then have e: "?st2 = st" by simp
  from ex known have ne: "cells ?s \<noteq> {}" by (auto simp: e split: if_splits)
  have "fst (fold resolve_step is (st, [])) = st \<and>
         (\<forall>i\<in>set is. cells (knowledge st ! i) \<noteq> {} \<and> known_safes (knowledge st ! i) = {} \<and>
            known_mines (knowledge st ! i) = {})"
    using Cons.prems(1,2) rest [unfolded e] by (intro Cons.IH) simp_all
  with known ne show ?case unfolding fst_eq e by simp
qed

lemma pass_done:
  assumes fin: "finite_cells (knowledge st)" and p: "pass st = Inr (st', True)"
  shows "st' = st \<and> settled (knowledge st)"
proof -
  let ?st1 = "fst (resolve_loop st)" and ?res = "snd (resolve_loop st)"
  from pass_shape [OF fin] obtain K1 where
    K1: "mset K1 = mset (knowledge ?st1) - mset (map ((!) (knowledge ?st1)) ?res)"
      "pass st = Inr (?st1\<lparr>knowledge := subset_pass K1\<rparr>, ?res = [] \<and> subset_pairs K1 = [])"
    by blast
  from pass_total [OF fin] obtain K1' where
    K1': "remove_resolved (map ((!) (knowledge ?st1)) ?res) (knowledge ?st1) = Inr K1'"
      "pass st = Inr (?st1\<lparr>knowledge := subset_pass K1'\<rparr>, ?res = [] \<and> subset_pairs K1' = [])"
    by blast
  from K1'(2) p have "(?st1\<lparr>knowledge := subset_pass K1'\<rparr>, ?res = [] \<and> subset_pairs K1' = []) = (st', True)"
    by (simp only: sum.inject)
  then have st': "st' = ?st1\<lparr>knowledge := subset_pass K1'\<rparr>"
    and res: "?res = []" and pairs: "subset_pairs K1' = []" by simp_all
  from res K1'(1) have K1'_eq: "K1' = knowledge ?st1" by simp
  have idx: "set [0..<length (knowledge st)] \<subseteq> {..<length (knowledge st)}" by auto
  note res' = res [unfolded resolve_loop_def]
  note unchanged = fold_resolve_step_nothing [OF fin idx res']
  have same: "?st1 = st"
    unfolding resolve_loop_def by (rule conjunct1 [OF unchanged])
  have each: "\<forall>i\<in>set [0..<length (knowledge st)]. cells (knowledge st ! i) \<noteq> {} \<and>
        known_safes (knowledge st ! i) = {} \<and> known_mines (knowledge st ! i) = {}"
    by (rule conjunct2 [OF unchanged])
  have all: "cells a \<noteq> {} \<and> known_safes a = {} \<and> known_mines a = {}"
    if "a \<in> set (knowledge st)" for a
  proof -
    from that obtain i where i: "i < length (knowledge st)" "knowledge st ! i = a"
      unfolding in_set_conv_nth by blast
    from i(1) have "i \<in> set [0..<length (knowledge st)]" by simp
    with each have "cells (knowledge st ! i) \<noteq> {} \<and>
        known_safes (knowledge st ! i) = {} \<and> known_mines (knowledge st ! i) = {}"
      by (rule bspec)
    then show ?thesis unfolding i(2) .
  qed
  from pairs have nopairs: "subset_pairs (knowledge st) = []" by (simp add: K1'_eq same)
  have anti: "cells a \<subseteq> cells b \<longrightarrow> cells a = cells b"
    if "a \<in> set (knowledge st)" "b \<in> set (knowledge st)" for a b
  proof -
    have "(a, b) \<notin> set (subset_pairs (knowledge st))" by (simp add: nopairs)
    with that show ?thesis by (auto simp: set_subset_pairs)
  qed
  have "subset_pass K1' = knowledge st"
    using nopairs by (simp add: subset_pass_no_pairs K1'_eq same)
  then have eq: "st' = st" unfolding st' same by simp
  have "settled (knowledge st)"
    unfolding settled_def
  proof (intro ballI conjI)
    fix a assume a: "a \<in> set (knowledge st)"
    from all [OF a] show "cells a \<noteq> {}" "known_safes a = {}" "known_mines a = {}"
      by blast+
    fix b assume "b \<in> set (knowledge st)"
    from anti [OF a this] show "cells a \<subseteq> cells b \<longrightarrow> cells a = cells b" .
  qed
  with eq show ?thesis by blast
qed

text \<open>
  C2, as the code has it: the knowledge is a list and \<^verbatim>\<open>add_knowledge\<close> appends to it
  without looking for a sentence over the same cells. What holds when
  \<^verbatim>\<open>add_knowledge\<close> returns is that the list is \<open>settled\<close>: no held sentence is empty
  or yields known cells, and no held sentence's cell set is a strict subset of another's.
  Sentences over the same cell set are left side by side.
\<close>

theorem add_knowledge_leaves_settled:
  assumes "finite_cells (knowledge st)"
  shows "\<exists>st'. add_knowledge c n st = Some (Inr st') \<and> settled (knowledge st')"
proof -
  have fin: "finite_cells (knowledge (add_sentence c n st))"
    by (rule add_sentence_finite_cells [OF assms])
  have "\<exists>st' st0. inference_loop (add_sentence c n st) = Some (Inr st') \<and>
          finite_cells (knowledge st') \<and> True \<and>
          finite_cells (knowledge st0) \<and> True \<and> pass st0 = Inr (st', True)"
    by (rule inference_loop_result [where P = "\<lambda>st. True", OF fin]) simp_all
  then obtain st' st0 where
    r: "inference_loop (add_sentence c n st) = Some (Inr st')"
      "finite_cells (knowledge st0)" "pass st0 = Inr (st', True)" by blast
  from pass_done [OF r(2,3)] have "settled (knowledge st')" by simp
  with r(1) show ?thesis unfolding add_knowledge_def by blast
qed

theorem add_knowledge_leaves_settled_witness:
  "finite_cells (knowledge (MinesweeperAI 2 3)) \<and>
   (\<exists>st'. add_knowledge (0, 1) 1 (MinesweeperAI 2 3) = Some (Inr st') \<and> settled (knowledge st'))"
  using add_knowledge_leaves_settled [of "MinesweeperAI 2 3" "(0, 1)" 1]
  by (simp add: finite_cells_def MinesweeperAI_def)

text \<open>
  C2 as stated fails: on the board \<open>two_by_three\<close> the hints for \<open>(0, 1)\<close> and
  \<open>(1, 1)\<close> leave two equal sentences in the list.
\<close>

theorem duplicate_sentences_coexist:
  "valid_reveal two_by_three (0, 1) \<and> valid_reveal two_by_three (1, 1) \<and>
   exec_calls [hint two_by_three (0, 1), hint two_by_three (1, 1)] (MinesweeperAI 2 3) =
     Some (Inr \<lparr>height = 2, width = 3, moves_made = {(1, 1), (0, 1)}, mines = {},
                safes = {(1, 1), (0, 1)}, knowledge = [twin, twin]\<rparr>)"
proof -
  have "valid_reveal two_by_three (0, 1)" "valid_reveal two_by_three (1, 1)"
    by (simp_all add: valid_reveal_def two_by_three_def is_mine_def)
  moreover have "exec_calls [hint two_by_three (0, 1), hint two_by_three (1, 1)] (MinesweeperAI 2 3) =
     Some (Inr \<lparr>height = 2, width = 3, moves_made = {(1, 1), (0, 1)}, mines = {},
                safes = {(1, 1), (0, 1)}, knowledge = [twin, twin]\<rparr>)"
    by code_simp
  ultimately show ?thesis by simp
qed


section \<open>The subset rule\<close>












lemma fold_remove_ignoring_keeps:
  assumes "x \<in> set xs" "x \<notin> set R"
  shows "x \<in> set (fold remove_ignoring R xs)"
proof -
  have "Multiset.count (mset R) x = 0" using assms(2) by (simp add: count_mset_0_iff)
  moreover have "0 < Multiset.count (mset xs) x" using assms(1) by (simp add: count_mset_gt_0)
  ultimately have "Multiset.count (mset R) x < Multiset.count (mset xs) x" by linarith
  then have "x \<in># mset xs - mset R" by (simp only: in_diff_count)
  then have "x \<in># mset (fold remove_ignoring R xs)" by (simp only: mset_fold_remove_ignoring)
  then show ?thesis by simp
qed

lemma fold_resolve_step_quiet:
  assumes "finite_cells (knowledge st)" "set is \<subseteq> {..<length (knowledge st)}"
    and "quiet (knowledge st)"
  shows "fold resolve_step is (st, []) = (st, [])"
  using assms
proof (induction "is")
  case Nil
  show ?case by simp
next
  case (Cons i "is")
  let ?s = "knowledge st ! i"
  from Cons.prems have i: "i < length (knowledge st)" by simp
  then have mem: "?s \<in> set (knowledge st)" by simp
  with Cons.prems(1) have f: "finite (cells ?s)" by (simp add: finite_cells_def)
  from mem Cons.prems(3) have q: "cells ?s \<noteq> {}" "known_safes ?s = {}" "known_mines ?s = {}"
    by (simp_all add: quiet_def)
  have "resolve_step i (st, []) = (st, [])"
    by (simp add: resolve_step_eq [OF f] Let_def q)
  moreover have "fold resolve_step is (st, []) = (st, [])"
    using Cons.prems by (intro Cons.IH) simp_all
  ultimately show ?case by simp
qed

lemma pass_quiet:
  assumes "finite_cells (knowledge st)" "quiet (knowledge st)"
  shows "pass st = Inr (st\<lparr>knowledge := subset_pass (knowledge st)\<rparr>,
                        subset_pairs (knowledge st) = [])"
proof -
  have "resolve_loop st = (st, [])"
    unfolding resolve_loop_def using assms by (intro fold_resolve_step_quiet) auto
  then show ?thesis by (simp add: pass_def)
qed

text \<open>
  C3, as the code has it: for two held sentences \<open>a\<close> and \<open>b\<close> with the cells of \<open>a\<close>
  strictly inside those of \<open>b\<close>, the subset step of a pass derives the sentence whose
  cells are \<open>cells b - cells a\<close> and whose count is \<open>count b - count a\<close>, and appends it;
  unless an equal sentence was already held, it is in the list when the step ends, and it
  is in the list after the whole pass when the resolution step of that pass finds nothing
  to do.
\<close>

theorem subset_rule_derives:
  assumes "a \<in> set (knowledge st)" "b \<in> set (knowledge st)" "cells a \<subset> cells b"
  shows "\<lparr>cells = cells b - cells a, count = count b - count a\<rparr>
            \<in> set (map derived (subset_pairs (knowledge st))) \<and>
         (\<lparr>cells = cells b - cells a, count = count b - count a\<rparr> \<notin> set (knowledge st) \<longrightarrow>
            \<lparr>cells = cells b - cells a, count = count b - count a\<rparr>
               \<in> set (subset_pass (knowledge st)) \<and>
            (finite_cells (knowledge st) \<and> quiet (knowledge st) \<longrightarrow>
               (\<exists>st'. pass st = Inr (st', False) \<and>
                  \<lparr>cells = cells b - cells a, count = count b - count a\<rparr>
                     \<in> set (knowledge st'))))"
proof -
  let ?K = "knowledge st"
  have d: "derived (a, b) = \<lparr>cells = cells b - cells a, count = count b - count a\<rparr>"
    by (simp add: derived_def Sentence_def)
  from assms have pair: "(a, b) \<in> set (subset_pairs ?K)"
    by (simp add: set_subset_pairs)
  then have new: "derived (a, b) \<in> set (map derived (subset_pairs ?K))" by simp
  have queued: "set (map snd (subset_pairs ?K)) \<subseteq> set ?K"
    by (auto simp: set_subset_pairs)
  have kept: "derived (a, b) \<in> set (subset_pass ?K)" if "derived (a, b) \<notin> set ?K"
  proof -
    from that queued have "derived (a, b) \<notin> set (map snd (subset_pairs ?K))" by blast
    moreover from new have "derived (a, b) \<in> set (?K @ map derived (subset_pairs ?K))" by simp
    ultimately show ?thesis
      unfolding subset_pass_def Let_def by (intro fold_remove_ignoring_keeps)
  qed
  have whole: "\<exists>st'. pass st = Inr (st', False) \<and> derived (a, b) \<in> set (knowledge st')"
    if "derived (a, b) \<notin> set ?K" "finite_cells ?K" "quiet ?K"
  proof -
    from pair have "subset_pairs ?K \<noteq> []" by auto
    with pass_quiet [OF that(2,3)] kept [OF that(1)] show ?thesis by simp
  qed
  from new kept whole show ?thesis unfolding d by blast
qed

text \<open>
  At the sentences \<open>({(0, 0), (0, 1)}, 1)\<close> and \<open>({(0, 0), (0, 1), (1, 0), (1, 1)}, 2)\<close>:
  the sentence derived is \<open>({(1, 0), (1, 1)}, 1)\<close>.
\<close>

theorem subset_rule_derives_witness:
  "small_sentence \<in> set (knowledge ((MinesweeperAI 2 2)\<lparr>knowledge := [small_sentence, large_sentence]\<rparr>)) \<and>
   large_sentence \<in> set (knowledge ((MinesweeperAI 2 2)\<lparr>knowledge := [small_sentence, large_sentence]\<rparr>)) \<and>
   cells small_sentence \<subset> cells large_sentence \<and>
   \<lparr>cells = {(1, 0), (1, 1)}, count = 1\<rparr> \<notin> set [small_sentence, large_sentence] \<and>
   finite_cells [small_sentence, large_sentence] \<and> quiet [small_sentence, large_sentence] \<and>
   \<lparr>cells = {(1, 0), (1, 1)}, count = 1\<rparr>
      \<in> set (map derived (subset_pairs [small_sentence, large_sentence])) \<and>
   \<lparr>cells = {(1, 0), (1, 1)}, count = 1\<rparr> \<in> set (subset_pass [small_sentence, large_sentence]) \<and>
   (\<exists>st'. pass ((MinesweeperAI 2 2)\<lparr>knowledge := [small_sentence, large_sentence]\<rparr>) = Inr (st', False) \<and>
       \<lparr>cells = {(1, 0), (1, 1)}, count = 1\<rparr> \<in> set (knowledge st'))"
proof -
  let ?st = "(MinesweeperAI 2 2)\<lparr>knowledge := [small_sentence, large_sentence]\<rparr>"
  let ?d = "\<lparr>cells = {(1, 0), (1, 1)}, count = 1\<rparr> :: sentence"
  have k: "knowledge ?st = [small_sentence, large_sentence]" by simp
  have 0: "\<lparr>cells = cells large_sentence - cells small_sentence,
            count = count large_sentence - count small_sentence\<rparr> = ?d"
    by code_simp
  have 1: "cells small_sentence \<subset> cells large_sentence"
    by code_simp
  have 2: "?d \<notin> set [small_sentence, large_sentence]"
    by code_simp
  have 3: "finite_cells [small_sentence, large_sentence]"
    by (simp add: finite_cells_def small_sentence_def large_sentence_def)
  have 4: "quiet [small_sentence, large_sentence]"
    by code_simp
  have 5: "small_sentence \<in> set (knowledge ?st)" "large_sentence \<in> set (knowledge ?st)"
    by simp_all
  from subset_rule_derives [OF 5 1] 2 3 4
  have "?d \<in> set (map derived (subset_pairs [small_sentence, large_sentence])) \<and>
        ?d \<in> set (subset_pass [small_sentence, large_sentence]) \<and>
        (\<exists>st'. pass ?st = Inr (st', False) \<and> ?d \<in> set (knowledge st'))"
    unfolding k 0 by blast
  with 1 2 3 4 5 show ?thesis by blast
qed

text \<open>
  C3 as stated fails, in a game with valid hints: when the loop of the fourth hint
  starts, \<open>sentence_a\<close> and \<open>sentence_b\<close> are held and the cells of the first lie
  strictly inside those of the second. After one pass no held sentence speaks about the
  cells of their difference, and those cells are not among the known mines and safe
  cells: the resolution step has shrunk \<open>sentence_b\<close> to the difference and the subset
  step of the same pass has taken it apart against \<open>other_sentence\<close>.
\<close>

theorem derived_sentence_taken_apart:
  "list_all (valid_reveal three_by_three) [(0, 1), (1, 0), (0, 2), (1, 1)] \<and>
   exec_calls (map (hint three_by_three) [(0, 1), (1, 0), (0, 2)]) (MinesweeperAI 3 3) =
     Some (Inr before_hint) \<and>
   add_sentence (1, 1) (nearby_mines three_by_three (1, 1)) before_hint = before_pass \<and>
   knowledge before_pass = [other_sentence, sentence_a, sentence_b] \<and>
   cells sentence_a \<subset> cells sentence_b \<and>
   pass before_pass = Inr (after_pass, False) \<and>
   derived (sentence_a, sentence_b) = \<lparr>cells = {(2, 0), (2, 1), (2, 2)}, count = 2\<rparr> \<and>
   {(2, 0), (2, 1), (2, 2)} \<notin> cells ` set (knowledge after_pass) \<and>
   \<not> {(2, 0), (2, 1), (2, 2)} \<subseteq> mines after_pass \<union> safes after_pass"
proof -
  have 1: "list_all (valid_reveal three_by_three) [(0, 1), (1, 0), (0, 2), (1, 1)]"
    by (simp add: valid_reveal_def three_by_three_def is_mine_def)
  have 2: "exec_calls (map (hint three_by_three) [(0, 1), (1, 0), (0, 2)]) (MinesweeperAI 3 3) =
     Some (Inr before_hint)"
    by code_simp
  have 3: "add_sentence (1, 1) (nearby_mines three_by_three (1, 1)) before_hint = before_pass"
    by code_simp
  have 4: "knowledge before_pass = [other_sentence, sentence_a, sentence_b]"
    by (simp add: before_pass_def)
  have 5: "cells sentence_a \<subset> cells sentence_b"
    by code_simp
  have 6: "pass before_pass = Inr (after_pass, False)"
    by code_simp
  have 7: "derived (sentence_a, sentence_b) = \<lparr>cells = {(2, 0), (2, 1), (2, 2)}, count = 2\<rparr>"
    by code_simp
  have 8: "{(2, 0), (2, 1), (2, 2)} \<notin> cells ` set (knowledge after_pass)"
    by code_simp
  have 9: "\<not> {(2, 0), (2, 1), (2, 2)} \<subseteq> mines after_pass \<union> safes after_pass"
    by code_simp
  from 1 2 3 4 5 6 7 8 9 show ?thesis by blast
qed


text \<open>
  The condition on an equal sentence is needed: here the empty sentence lies inside the
  first one, the derived sentence equals the first one, and \<^verbatim>\<open>remove\<close> deletes both.
\<close>

lemma derived_duplicate_removed:
  "subset_pass [\<lparr>cells = {(2, 2), (2, 4)}, count = 1\<rparr>, \<lparr>cells = {(2, 2)}, count = 1\<rparr>,
                \<lparr>cells = {}, count = 0\<rparr>] =
     [\<lparr>cells = {}, count = 0\<rparr>, \<lparr>cells = {(2, 4)}, count = 0\<rparr>, \<lparr>cells = {(2, 2)}, count = 1\<rparr>]"
  by code_simp

section \<open>Agreement with the game\<close>





subsection \<open>Sound sentences\<close>

lemma sound_prune:
  assumes "sound m s" "S \<inter> m = {}" "M \<subseteq> m"
  shows "sound m (prune S M s)"
proof -
  let ?X = "cells s \<inter> m"
  from assms(1) have fin: "finite (cells s)" and cnt: "count s = int (card ?X)"
    by (simp_all add: sound_def)
  have a: "(cells s - S) \<inter> M = ?X \<inter> M" using assms(2,3) by auto
  have b: "(cells s - S - M) \<inter> m = ?X - M" using assms(2,3) by auto
  have finX: "finite ?X" using fin by simp
  have "card (?X - M) = card ?X - card (?X \<inter> M)"
    using finX by (intro card_Diff_subset_Int) simp
  moreover have "card (?X \<inter> M) \<le> card ?X"
    using finX by (intro card_mono) auto
  ultimately have "int (card (?X - M)) = int (card ?X) - int (card (?X \<inter> M))" by simp
  with fin cnt show ?thesis by (simp add: sound_def prune_def a b)
qed

lemma sound_derived:
  assumes "sound m a" "sound m b" "cells a \<subset> cells b"
  shows "sound m (derived (a, b))"
proof -
  from assms have fin: "finite (cells a)" "finite (cells b)" by (simp_all add: sound_def)
  have "(cells b - cells a) \<inter> m = (cells b \<inter> m) - (cells a \<inter> m)" by auto
  moreover have "cells a \<inter> m \<subseteq> cells b \<inter> m" using assms(3) by auto
  moreover have "finite (cells a \<inter> m)" using fin by simp
  ultimately have "card ((cells b - cells a) \<inter> m) = card (cells b \<inter> m) - card (cells a \<inter> m)"
    by (simp add: card_Diff_subset)
  moreover have "card (cells a \<inter> m) \<le> card (cells b \<inter> m)"
    using fin assms(3) by (intro card_mono) auto
  ultimately have "int (card ((cells b - cells a) \<inter> m)) =
      int (card (cells b \<inter> m)) - int (card (cells a \<inter> m))" by simp
  with assms fin show ?thesis by (simp add: sound_def)
qed

lemma sound_known:
  assumes "sound m s"
  shows "known_safes s \<inter> m = {} \<and> known_mines s \<subseteq> m"
proof -
  from assms have fin: "finite (cells s)" and cnt: "count s = int (card (cells s \<inter> m))"
    by (simp_all add: sound_def)
  have "known_safes s \<inter> m = {}"
  proof (cases "count s = 0")
    case True
    with cnt fin have "cells s \<inter> m = {}" by simp
    with True show ?thesis by (simp add: known_safes_def)
  next
    case False
    then show ?thesis by (simp add: known_safes_def)
  qed
  moreover have "known_mines s \<subseteq> m"
  proof (cases "int (card (cells s)) = count s")
    case True
    with cnt have "card (cells s \<inter> m) = card (cells s)" by simp
    with fin have "cells s \<inter> m = cells s" by (intro card_subset_eq) auto
    with True show ?thesis by (auto simp: known_mines_def)
  next
    case False
    then show ?thesis by (simp add: known_mines_def)
  qed
  ultimately show ?thesis by simp
qed

lemma consistent_finite_cells: "consistent g st \<Longrightarrow> finite_cells (knowledge st)"
  by (simp add: consistent_def finite_cells_def sound_def)

lemma consistent_marks:
  assumes "consistent g st" "finite S" "finite M" "S \<inter> mine_cells g = {}" "M \<subseteq> mine_cells g"
  shows "consistent g (marks S M st)"
proof -
  have "sound (mine_cells g) (prune S M s)" if "s \<in> set (knowledge st)" for s
    using assms(1) that by (intro sound_prune [OF _ assms(4,5)]) (simp add: consistent_def)
  moreover have "mines st \<union> M \<subseteq> mine_cells g" "(safes st \<union> S) \<inter> mine_cells g = {}"
    using assms by (auto simp: consistent_def)
  ultimately show ?thesis using assms(1-3) by (simp add: consistent_def marks_def)
qed

lemma consistent_replace:
  assumes "consistent g st" "\<forall>s\<in>set K. held_or_derived (knowledge st) s"
  shows "consistent g (st\<lparr>knowledge := K\<rparr>)"
proof -
  have "sound (mine_cells g) s" if "s \<in> set K" for s
  proof -
    from assms(1) have all: "\<forall>x\<in>set (knowledge st). sound (mine_cells g) x"
      by (simp add: consistent_def)
    from assms(2) that have "held_or_derived (knowledge st) s" by blast
    then consider "s \<in> set (knowledge st)"
      | a b where "a \<in> set (knowledge st)" "b \<in> set (knowledge st)"
          "cells a \<subset> cells b" "s = derived (a, b)"
      unfolding held_or_derived_def by blast
    then show ?thesis
    proof cases
      case 1
      with all show ?thesis by blast
    next
      case 2
      with all have "sound (mine_cells g) a" "sound (mine_cells g) b" by blast+
      then show ?thesis unfolding 2(4) using 2(3) by (rule sound_derived)
    qed
  qed
  with assms(1) show ?thesis by (simp add: consistent_def)
qed

lemma consistent_pass:
  assumes "consistent g st" "pass st = Inr r"
  shows "consistent g (fst r)"
proof (rule pass_invariant [where P = "consistent g", OF assms])
  fix st :: ai
  assume "consistent g st"
  then show "finite_cells (knowledge st)" by (rule consistent_finite_cells)
next
  fix st :: ai and s
  assume c: "consistent g st" and s: "s \<in> set (knowledge st)"
  then have snd: "sound (mine_cells g) s" by (simp add: consistent_def)
  then have "finite (cells s)" by (simp add: sound_def)
  with known_finite [of s] sound_known [OF snd]
  show "consistent g (marks (known_safes s) (known_mines s) st)"
    by (intro consistent_marks [OF c]) simp_all
next
  fix st :: ai and K
  assume "consistent g st" "\<forall>s\<in>set K. held_or_derived (knowledge st) s"
  then show "consistent g (st\<lparr>knowledge := K\<rparr>)" by (rule consistent_replace)
qed



subsection \<open>The count the board reports\<close>

lemma card_Int_sum_list:
  "distinct xs \<Longrightarrow> int (card (set xs \<inter> m)) = (\<Sum>x\<leftarrow>xs. if x \<in> m then 1 else 0)"
proof (induction xs)
  case Nil
  show ?case by simp
next
  case (Cons x xs)
  then have x: "x \<notin> set xs" and IH: "int (card (set xs \<inter> m)) = (\<Sum>x\<leftarrow>xs. if x \<in> m then 1 else 0)"
    by simp_all
  show ?case
  proof (cases "x \<in> m")
    case True
    then have "set (x # xs) \<inter> m = insert x (set xs \<inter> m)" by auto
    moreover have "x \<notin> set xs \<inter> m" using x by simp
    ultimately have "card (set (x # xs) \<inter> m) = Suc (card (set xs \<inter> m))" by simp
    with True IH show ?thesis by simp
  next
    case False
    then have "set (x # xs) \<inter> m = set xs \<inter> m" by auto
    with False IH show ?thesis by simp
  qed
qed

lemma sum_list_row:
  "(\<Sum>x\<leftarrow>concat (map (\<lambda>j. if Q j then [h j] else []) js). f x) =
   (\<Sum>j\<leftarrow>js. if Q j then f (h j) else (0::int))"
  by (induction js) auto

lemma sum_list_single:
  "(\<Sum>x\<leftarrow>(if Q then [a] else []). f x) = (if Q then f a else (0::int))"
  by simp

lemma sum_list_rows:
  "(\<Sum>x\<leftarrow>concat (map F is). f x) = (\<Sum>i\<leftarrow>is. \<Sum>x\<leftarrow>F i. (f x :: int))"
  by (induction "is") auto

lemma row_cells:
  "set (concat (map (\<lambda>j. if Q j then [(i, j)] else []) js)) \<subseteq> {i} \<times> set js"
  by (induction js) auto

lemma distinct_row:
  "distinct js \<Longrightarrow> distinct (concat (map (\<lambda>j. if Q j then [(i, j)] else []) js))"
proof (induction js)
  case Nil
  show ?case by simp
next
  case (Cons j js)
  with row_cells [of Q i js] show ?case by auto
qed

lemma distinct_rows:
  assumes "distinct is" "\<And>i. distinct (F i)" "\<And>i. set (F i) \<subseteq> {i} \<times> UNIV"
  shows "distinct (concat (map F is))"
  using assms(1)
proof (induction "is")
  case Nil
  show ?case by simp
next
  case (Cons i "is")
  have "set (F i) \<inter> set (concat (map F is)) = {}"
  proof -
    have "set (concat (map F is)) \<subseteq> set is \<times> UNIV"
      using assms(3) by auto
    moreover have "i \<notin> set is" using Cons.prems by simp
    ultimately show ?thesis using assms(3) [of i] by auto
  qed
  with Cons assms(2) show ?case by simp
qed

lemma distinct_neighbors: "distinct (neighbors st c)"
  unfolding neighbors_def
proof (rule distinct_rows)
  show "distinct [fst c - 1..fst c + 1]" by simp
  fix i
  show "distinct (concat (map (\<lambda>j. if (i \<noteq> fst c \<or> j \<noteq> snd c) \<and> 0 \<le> i \<and> i < height st \<and>
      0 \<le> j \<and> j < width st then [(i, j)] else []) [snd c - 1..snd c + 1]))"
    by (rule distinct_row) simp
  show "set (concat (map (\<lambda>j. if (i \<noteq> fst c \<or> j \<noteq> snd c) \<and> 0 \<le> i \<and> i < height st \<and>
      0 \<le> j \<and> j < width st then [(i, j)] else []) [snd c - 1..snd c + 1])) \<subseteq> {i} \<times> UNIV"
    by (rule subset_trans [OF row_cells]) auto
qed

lemma nearby_mines_card:
  assumes "height st = g_height g" "width st = g_width g"
  shows "nearby_mines g c = int (card (set (neighbors st c) \<inter> mine_cells g))"
proof -
  have "int (card (set (neighbors st c) \<inter> mine_cells g)) =
        (\<Sum>x\<leftarrow>neighbors st c. if x \<in> mine_cells g then 1 else 0)"
    by (rule card_Int_sum_list [OF distinct_neighbors])
  also have "\<dots> = (\<Sum>i\<leftarrow>[fst c - 1..fst c + 1]. \<Sum>j\<leftarrow>[snd c - 1..snd c + 1].
      if (i \<noteq> fst c \<or> j \<noteq> snd c) \<and> 0 \<le> i \<and> i < height st \<and> 0 \<le> j \<and> j < width st
      then (if (i, j) \<in> mine_cells g then 1 else 0) else 0)"
    unfolding neighbors_def by (simp only: sum_list_rows sum_list_single)
  also have "\<dots> = nearby_mines g c"
    unfolding nearby_mines_def
    by (intro arg_cong [where f = sum_list] map_cong refl)
       (auto simp: mine_cells_def assms prod_eq_iff)
  finally show ?thesis by simp
qed



lemma sound_hint:
  assumes "height st = g_height g" "width st = g_width g"
  shows "sound (mine_cells g) (Sentence (set (neighbors st c)) (nearby_mines g c))"
  using nearby_mines_card [OF assms, of c] by (simp add: sound_def Sentence_def)

lemma consistent_add_sentence:
  assumes "consistent g st" "valid_reveal g c"
  shows "consistent g (add_sentence c (nearby_mines g c) st)"
proof -
  let ?m = "mine_cells g"
  let ?new = "prune (insert c (safes st)) (mines st)
                (Sentence (set (neighbors st c)) (nearby_mines g c))"
  from assms(1) have fin: "finite (safes st)" "finite (mines st)"
    and dims: "height st = g_height g" "width st = g_width g"
    and known: "mines st \<subseteq> ?m" "safes st \<inter> ?m = {}"
    by (simp_all add: consistent_def)
  from assms(2) have c: "c \<notin> ?m" by (simp add: valid_reveal_def mine_cells_def is_mine_def)
  have eq: "add_sentence c (nearby_mines g c) st =
      (marks {c} {} st)\<lparr>moves_made := insert c (moves_made st),
          knowledge := knowledge (marks {c} {} st) @ [?new]\<rparr>"
    using fin by (simp add: add_sentence_eq set_iter marks_def)
  have t1: "consistent g (marks {c} {} st)"
    using c by (intro consistent_marks [OF assms(1)]) simp_all
  have "sound ?m ?new"
    using known c by (intro sound_prune sound_hint dims) auto
  with t1 show ?thesis unfolding eq by (simp add: consistent_def)
qed

lemma consistent_add_knowledge:
  assumes "consistent g st" "valid_reveal g c"
  shows "\<exists>st'. add_knowledge c (nearby_mines g c) st = Some (Inr st') \<and> consistent g st'"
proof -
  let ?st0 = "add_sentence c (nearby_mines g c) st"
  have t: "consistent g ?st0" by (rule consistent_add_sentence [OF assms])
  then have fin: "finite_cells (knowledge ?st0)" by (rule consistent_finite_cells)
  have "\<exists>st' st0. inference_loop ?st0 = Some (Inr st') \<and>
          finite_cells (knowledge st') \<and> consistent g st' \<and>
          finite_cells (knowledge st0) \<and> consistent g st0 \<and> pass st0 = Inr (st', True)"
  proof (rule inference_loop_result [where P = "consistent g", OF fin t])
    fix st :: ai and r
    assume "consistent g st" "pass st = Inr r"
    then show "consistent g (fst r)" by (rule consistent_pass)
  qed
  then show ?thesis unfolding add_knowledge_def by blast
qed

lemma consistent_hints:
  assumes "consistent g st" "list_all (valid_reveal g) cs"
  shows "\<exists>st'. exec_calls (map (hint g) cs) st = Some (Inr st') \<and> consistent g st'"
  using assms
proof (induction cs arbitrary: st)
  case Nil
  then show ?case by simp
next
  case (Cons c cs)
  then have v: "valid_reveal g c" "list_all (valid_reveal g) cs" by simp_all
  from consistent_add_knowledge [OF Cons.prems(1) v(1)] obtain st1 where
    st1: "add_knowledge c (nearby_mines g c) st = Some (Inr st1)" "consistent g st1" by blast
  from Cons.IH [OF st1(2) v(2)] st1(1) show ?case by (simp add: hint_def)
qed

lemma consistent_init: "consistent g (MinesweeperAI (g_height g) (g_width g))"
  by (simp add: consistent_def MinesweeperAI_def)

text \<open>
  C4: for every game and every sequence of valid reveals (cells of the grid that are not
  mines, each with the count the board reports), after each of the \<^verbatim>\<open>add_knowledge\<close>
  calls, that is after the first \<open>k\<close> of them for every \<open>k\<close>, the known mines and the
  known safe cells are disjoint.
\<close>

theorem mines_and_safes_disjoint:
  assumes "list_all (valid_reveal g) cs"
  shows "\<exists>st. exec_calls (map (hint g) (take k cs)) (MinesweeperAI (g_height g) (g_width g)) =
            Some (Inr st) \<and> mines st \<inter> safes st = {}"
proof -
  from assms have "list_all (valid_reveal g) (take k cs)"
    by (auto simp: list_all_iff dest: in_set_takeD)
  from consistent_hints [OF consistent_init this] obtain st where
    "exec_calls (map (hint g) (take k cs)) (MinesweeperAI (g_height g) (g_width g)) = Some (Inr st)"
    "consistent g st" by blast
  moreover from this(2) have "mines st \<inter> safes st = {}" by (auto simp: consistent_def)
  ultimately show ?thesis by blast
qed

theorem mines_and_safes_disjoint_witness:
  "list_all (valid_reveal three_by_three) [(0, 1), (1, 0), (0, 2), (1, 1)] \<and>
   (\<exists>st. exec_calls (map (hint three_by_three) (take 4 [(0, 1), (1, 0), (0, 2), (1, 1)]))
           (MinesweeperAI (g_height three_by_three) (g_width three_by_three)) = Some (Inr st) \<and>
         mines st \<inter> safes st = {})"
proof -
  have v: "list_all (valid_reveal three_by_three) [(0, 1), (1, 0), (0, 2), (1, 1)]"
    by (simp add: valid_reveal_def three_by_three_def is_mine_def)
  from mines_and_safes_disjoint [OF v, of 4] v show ?thesis by blast
qed


end
